theory Spec2Isabelle
  imports Main "HOL-Library.Multiset" "HOL-Library.Char_ord" "HOL-Library.List_Lexorder"
    "HOL-Library.AList"
begin

section \<open>Bytes, errors and slices\<close>

text \<open>
  A Go \<open>[]byte\<close> and a Go \<open>string\<close> are both modelled as \<open>string\<close> (a list of 8-bit
  characters); an index or a length is a \<open>nat\<close>, and every place where the source could
  compute a negative index is guarded explicitly.  A run-time panic (index or slice bounds
  out of range) is the error value \<open>Panic\<close>.
\<close>

abbreviation bslash :: char where "bslash \<equiv> CHR 0x5C"
abbreviation dquote :: char where "dquote \<equiv> CHR 0x22"
abbreviation squote :: char where "squote \<equiv> CHR 0x27"
abbreviation tab :: char where "tab \<equiv> CHR 0x09"
abbreviation nul :: char where "nul \<equiv> CHR 0x00"
abbreviation newline :: char where "newline \<equiv> CHR 0x0A"

datatype error =
    MissingMeasurement
  | MissingFields
  | MissingTagKey
  | MissingTagValue
  | InvalidTagFormat
  | DuplicateTags
  | MissingFieldKey
  | MissingFieldValue
  | UnbalancedQuotes
  | InvalidFieldFormat
  | InvalidNumber
  | UnparsableInteger string
  | InvalidFloat
  | InvalidBoolean
  | BadTimestamp
  | MaxKeyLengthExceeded
  | WrongFormat
  | MissingTimestamp
  | UnexpectedEndOfInput
  | Panic

type_synonym 'a result = "error + 'a"

abbreviation Err :: "error \<Rightarrow> 'a result" where "Err \<equiv> Inl"
abbreviation Ok :: "'a \<Rightarrow> 'a result" where "Ok \<equiv> Inr"

text \<open>Sequencing of fallible steps: the first error (or panic) ends the computation.\<close>

definition bind_r :: "'a result \<Rightarrow> ('a \<Rightarrow> 'b result) \<Rightarrow> 'b result" where
  "bind_r m f = (case m of Inl e \<Rightarrow> Inl e | Inr x \<Rightarrow> f x)"

lemma bind_r_cong [fundef_cong]:
  "m = m' \<Longrightarrow> (\<And>x. m' = Inr x \<Longrightarrow> f x = f' x) \<Longrightarrow> bind_r m f = bind_r m' f'"
  by (auto simp: bind_r_def split: sum.splits)

lemma bind_r_simps [simp]:
  "bind_r (Inl e) f = Inl e"
  "bind_r (Inr x) f = f x"
  by (simp_all add: bind_r_def)

text \<open>The continuation is simplified only once the first step has a value.\<close>

lemma bind_r_weak_cong [cong]: "m = m' \<Longrightarrow> bind_r m f = bind_r m' f"
  by simp

text \<open>\<open>buf[lo:hi]\<close>; the capacity of every buffer is taken to be its length.\<close>

definition slice :: "'a list \<Rightarrow> nat \<Rightarrow> nat \<Rightarrow> 'a list result" where
  "slice buf lo hi =
     (if lo \<le> hi \<and> hi \<le> length buf then Ok (take (hi - lo) (drop lo buf)) else Err Panic)"

text \<open>\<open>buf[i]\<close>.\<close>

definition at :: "'a list \<Rightarrow> nat \<Rightarrow> 'a result" where
  "at buf i = (if i < length buf then Ok (buf ! i) else Err Panic)"

text \<open>A decimal digit.\<close>

definition is_digit :: "char \<Rightarrow> bool" where
  "is_digit c = (CHR ''0'' \<le> c \<and> c \<le> CHR ''9'')"

section \<open>Byte-grammar primitives\<close>

function skipWhitespace :: "string \<Rightarrow> nat \<Rightarrow> nat" where
  "skipWhitespace buf i =
     (if i < length buf then
        (if buf ! i \<noteq> CHR '' '' \<and> buf ! i \<noteq> tab \<and> buf ! i \<noteq> nul then i
         else skipWhitespace buf (i + 1))
      else i)"
  by pat_completeness auto
termination
  by (relation "measure (\<lambda>(buf, i). length buf - i)") auto

declare skipWhitespace.simps [simp del]

text \<open>
  The loop of \<open>scanTo\<close>: it stops at the end of the buffer, or at a stop byte that is the
  first byte of the buffer or whose preceding byte is not a backslash.
\<close>

function scanTo_loop :: "string \<Rightarrow> nat \<Rightarrow> char \<Rightarrow> nat" where
  "scanTo_loop buf i stop =
     (if i \<ge> length buf then i
      else if buf ! i = stop \<and> (i = 0 \<or> buf ! (i - 1) \<noteq> bslash) then i
      else scanTo_loop buf (i + 1) stop)"
  by pat_completeness auto
termination
  by (relation "measure (\<lambda>(buf, i, stop). length buf - i)") auto

declare scanTo_loop.simps [simp del]

definition scanTo :: "string \<Rightarrow> nat \<Rightarrow> char \<Rightarrow> (nat \<times> string) result" where
  "scanTo buf start stop =
     (let i = scanTo_loop buf start stop
      in bind_r (slice buf start i) (\<lambda>s. Ok (i, s)))"

subsection \<open>Where \<open>scanTo\<close> stops\<close>

text \<open>
  The stop condition of the source (the stop byte at index 0, or after a byte that is not
  a backslash): the
  byte before the stop byte is inspected alone, whether or not it is itself escaped, and
  also when it lies before the start index.
\<close>

definition unescaped_at :: "string \<Rightarrow> char \<Rightarrow> nat \<Rightarrow> bool" where
  "unescaped_at buf stop j = (buf ! j = stop \<and> (j = 0 \<or> buf ! (j - 1) \<noteq> bslash))"

text \<open>
  The reading of the specification, for comparison: a stop byte ends the scan unless it is
  preceded by an unescaped backslash, that is, unless the run of backslashes that ends
  just before it has odd length.
\<close>

fun backslash_run :: "string \<Rightarrow> nat \<Rightarrow> nat" where
  "backslash_run buf 0 = 0"
| "backslash_run buf (Suc j) =
     (if j < length buf \<and> buf ! j = bslash then Suc (backslash_run buf j) else 0)"

function scanTo_spec_loop :: "string \<Rightarrow> nat \<Rightarrow> char \<Rightarrow> nat" where
  "scanTo_spec_loop buf i stop =
     (if i \<ge> length buf then i
      else if buf ! i = stop \<and> even (backslash_run buf i) then i
      else scanTo_spec_loop buf (i + 1) stop)"
  by pat_completeness auto
termination
  by (relation "measure (\<lambda>(buf, i, stop). length buf - i)") auto

declare scanTo_spec_loop.simps [simp del]

definition scanTo_spec :: "string \<Rightarrow> nat \<Rightarrow> char \<Rightarrow> (nat \<times> string) result" where
  "scanTo_spec buf start stop =
     (let i = scanTo_spec_loop buf start stop
      in bind_r (slice buf start i) (\<lambda>s. Ok (i, s)))"

lemma scanTo_loop_ge: "start \<le> scanTo_loop buf start stop"
proof (induction buf start stop rule: scanTo_loop.induct)
  case (1 buf i stop)
  then show ?case by (subst scanTo_loop.simps) auto
qed

lemma scanTo_loop_le: "start \<le> length buf \<Longrightarrow> scanTo_loop buf start stop \<le> length buf"
proof (induction buf start stop rule: scanTo_loop.induct)
  case (1 buf i stop)
  then show ?case by (subst scanTo_loop.simps) auto
qed

lemma scanTo_loop_skips:
  "start \<le> j \<Longrightarrow> j < scanTo_loop buf start stop \<Longrightarrow> \<not> unescaped_at buf stop j"
proof (induction buf start stop rule: scanTo_loop.induct)
  case (1 buf i stop)
  show ?case
  proof (cases "j = i")
    case True
    with "1.prems" show ?thesis
      by (subst (asm) scanTo_loop.simps) (auto simp: unescaped_at_def split: if_splits)
  next
    case False
    with "1.prems" have "i + 1 \<le> j" by simp
    moreover from "1.prems" have "j < scanTo_loop buf (i + 1) stop \<and> \<not> length buf \<le> i \<and>  \<not> (buf ! i = stop \<and> (i = 0 \<or> buf ! (i - 1) \<noteq> bslash))"
      by (subst (asm) scanTo_loop.simps) (auto split: if_splits)
    ultimately show ?thesis using "1.IH" by blast
  qed
qed

lemma scanTo_loop_stops:
  "scanTo_loop buf start stop < length buf \<Longrightarrow> unescaped_at buf stop (scanTo_loop buf start stop)"
proof (induction buf start stop rule: scanTo_loop.induct)
  case (1 buf i stop)
  from "1.prems" show ?case
    apply (subst scanTo_loop.simps)
    apply (subst (asm) scanTo_loop.simps)
    using "1.IH" by (auto simp: unescaped_at_def split: if_splits)
qed

text \<open>
  C8 (as amended): for every buffer, stop byte and start index within the buffer,
  \<open>scanTo\<close> returns the end index \<open>e\<close> and the slice \<open>buf[start:e]\<close>, where \<open>e\<close> is the
  first index from \<open>start\<close> on that holds the stop byte and is either index 0 of the
  buffer or not immediately preceded by a backslash byte, or the length of the buffer when
  there is no such index.
\<close>

theorem scanTo_first_unescaped:
  assumes "start \<le> length buf"
  shows "\<exists>e. scanTo buf start stop = Ok (e, take (e - start) (drop start buf))
           \<and> start \<le> e \<and> e \<le> length buf
           \<and> (\<forall>j. start \<le> j \<and> j < e \<longrightarrow> \<not> unescaped_at buf stop j)
           \<and> (e < length buf \<longrightarrow> unescaped_at buf stop e)"
proof -
  let ?e = "scanTo_loop buf start stop"
  have "scanTo buf start stop = Ok (?e, take (?e - start) (drop start buf))"
    using assms scanTo_loop_ge scanTo_loop_le
    by (simp add: scanTo_def slice_def bind_r_def Let_def)
  then show ?thesis
    using assms scanTo_loop_ge scanTo_loop_le scanTo_loop_skips scanTo_loop_stops
    by blast
qed


theorem scanTo_first_unescaped_witness:
  "(2::nat) \<le> length (''k='' @ [bslash] @ ''=v=w'') \<and>
   scanTo (''k='' @ [bslash] @ ''=v=w'') 2 (CHR ''='') = Ok (5, [bslash] @ ''=v'')"
proof -
  have h: "(2::nat) \<le> length (''k='' @ [bslash] @ ''=v=w'')" by simp
  have "scanTo (''k='' @ [bslash] @ ''=v=w'') 2 (CHR ''='') = Ok (5, [bslash] @ ''=v'')"
    by code_simp
  with h show ?thesis using scanTo_first_unescaped [OF h, of "CHR ''=''"] by simp
qed

text \<open>
  C8 as stated fails: in the five bytes \<open>a\<close>, backslash, backslash, \<open>=\<close>, \<open>b\<close> the stop
  byte \<open>=\<close> at index 3 follows an escaped
  backslash, so the specification's reading ends the scan there, while \<open>scanTo\<close> runs on
  to the end of the buffer.
\<close>

theorem scanTo_double_backslash_counterexample:
  "scanTo (''a'' @ [bslash, bslash] @ ''=b'') 0 (CHR ''='') = Ok (5, ''a'' @ [bslash, bslash] @ ''=b'')
   \<and> scanTo_spec (''a'' @ [bslash, bslash] @ ''=b'') 0 (CHR ''='') = Ok (3, ''a'' @ [bslash, bslash])"
  by code_simp

section \<open>The functions of the imported packages\<close>

text \<open>
  \<open>strconv.ParseInt\<close>, \<open>strconv.ParseFloat\<close> and the constant \<open>models.MaxKeyLength\<close>
  belong to imported packages and not to this repository; the scanner takes them as
  parameters.  \<open>ParseInt s\<close> and \<open>ParseFloat s\<close> tell whether the parse of \<open>s\<close> returns
  without an error.
\<close>

record externals =
  ParseInt :: "string \<Rightarrow> bool"
  ParseFloat :: "string \<Rightarrow> bool"
  MaxKeyLength :: nat

section \<open>Numeric literal validator\<close>

definition maxInt64Digits :: nat where "maxInt64Digits = 19"
definition minInt64Digits :: nat where "minInt64Digits = 20"
definition maxFloat64Digits :: nat where "maxFloat64Digits = 25"
definition minFloat64Digits :: nat where "minFloat64Digits = 27"

definition isNumeric :: "char \<Rightarrow> bool" where
  "isNumeric b = ((CHR ''0'' \<le> b \<and> b \<le> CHR ''9'') \<or> b = CHR ''.'')"

text \<open>
  The loop of \<open>scanNumber\<close>; it returns the index and the three flags at the \<open>break\<close>.
  The test \<open>buf[i-1]\<close> after a sign is out of range at index 0.
\<close>

function scanNumber_loop ::
  "string \<Rightarrow> nat \<Rightarrow> nat \<Rightarrow> bool \<Rightarrow> bool \<Rightarrow> bool \<Rightarrow> (nat \<times> bool \<times> bool \<times> bool) result" where
  "scanNumber_loop buf start i isInt decimal scientific =
     (if i \<ge> length buf then Ok (i, isInt, decimal, scientific)
      else if buf ! i = CHR '','' \<or> buf ! i = CHR '' '' then Ok (i, isInt, decimal, scientific)
      else if buf ! i = CHR ''i'' \<and> i > start \<and> \<not> isInt then
        scanNumber_loop buf start (i + 1) True decimal scientific
      else if buf ! i = CHR ''.'' \<and> decimal then Err InvalidNumber
      else
        (let decimal = (decimal \<or> buf ! i = CHR ''.'') in
         if i > start \<and> (buf ! i = CHR ''e'' \<or> buf ! i = CHR ''E'') then
           scanNumber_loop buf start (i + 1) isInt decimal True
         else if (buf ! i = CHR ''+'' \<or> buf ! i = CHR ''-'') \<and> i = 0 then Err Panic
         else if (buf ! i = CHR ''+'' \<or> buf ! i = CHR ''-'')
                 \<and> (buf ! (i - 1) = CHR ''e'' \<or> buf ! (i - 1) = CHR ''E'') then
           scanNumber_loop buf start (i + 1) isInt decimal scientific
         else if i + 2 < length buf \<and> (buf ! i = CHR ''N'' \<or> buf ! i = CHR ''n'') then
           Err InvalidNumber
         else if \<not> isNumeric (buf ! i) then Err InvalidNumber
         else scanNumber_loop buf start (i + 1) isInt decimal scientific))"
  by pat_completeness auto
termination
  by (relation "measure (\<lambda>(buf, start, i, isInt, decimal, scientific). length buf - i)") auto

declare scanNumber_loop.simps [simp del]

text \<open>The checks of \<open>scanNumber\<close> after its loop has ended at index \<open>i\<close>.\<close>

definition scanNumber_check ::
  "externals \<Rightarrow> string \<Rightarrow> nat \<Rightarrow> nat \<times> bool \<times> bool \<times> bool \<Rightarrow> nat result" where
  "scanNumber_check ext buf start st =
     (case st of (i, isInt, decimal, scientific) \<Rightarrow>
        if isInt \<and> (decimal \<or> scientific) then Err InvalidNumber
        else bind_r (at buf start) (\<lambda>first.
          let numericDigits = int i - int start
                - (if isInt then 1 else 0) - (if decimal then 1 else 0)
                - (if first = CHR ''-'' then 1 else 0)
          in
          if numericDigits = 0 then Err InvalidNumber
          else if isInt then
            (if i = 0 then Err Panic
             else if buf ! (i - 1) \<noteq> CHR ''i'' then Err InvalidNumber
             else bind_r (slice buf start (i - 1)) (\<lambda>digits.
               if (length digits \<ge> maxInt64Digits \<or> length digits \<ge> minInt64Digits)
                  \<and> \<not> ParseInt ext digits
               then Err (UnparsableInteger digits)
               else Ok i))
          else bind_r (slice buf start i) (\<lambda>digits.
            if (scientific \<or> length digits \<ge> maxFloat64Digits \<or> length digits \<ge> minFloat64Digits)
               \<and> \<not> ParseFloat ext digits
            then Err InvalidFloat
            else Ok i)))"

definition scanNumber :: "externals \<Rightarrow> string \<Rightarrow> nat \<Rightarrow> nat result" where
  "scanNumber ext buf start =
     (if start < length buf \<and> buf ! start = CHR ''-'' \<and> start + 1 = length buf then Err InvalidNumber
      else
        (let i = (if start < length buf \<and> buf ! start = CHR ''-'' then start + 1 else start)
         in bind_r (scanNumber_loop buf start i False False False)
              (scanNumber_check ext buf start)))"

section \<open>Boolean literal validator\<close>

function scanBoolean_loop :: "string \<Rightarrow> nat \<Rightarrow> nat" where
  "scanBoolean_loop buf i =
     (if i \<ge> length buf then i
      else if buf ! i = CHR '','' \<or> buf ! i = CHR '' '' then i
      else scanBoolean_loop buf (i + 1))"
  by pat_completeness auto
termination
  by (relation "measure (\<lambda>(buf, i). length buf - i)") auto

declare scanBoolean_loop.simps [simp del]

definition scanBoolean :: "string \<Rightarrow> nat \<Rightarrow> (nat \<times> string) result" where
  "scanBoolean buf start =
     (if start < length buf
         \<and> buf ! start \<noteq> CHR ''t'' \<and> buf ! start \<noteq> CHR ''f''
         \<and> buf ! start \<noteq> CHR ''T'' \<and> buf ! start \<noteq> CHR ''F''
      then Err InvalidBoolean
      else
        (let i = scanBoolean_loop buf (start + 1) in
         if i - start = 1 then bind_r (slice buf start i) (\<lambda>s. Ok (i, s))
         else bind_r (at buf start) (\<lambda>first.
           if (first = CHR ''t'' \<or> first = CHR ''T'') \<and> i - start \<noteq> 4 then Err InvalidBoolean
           else if (first = CHR ''f'' \<or> first = CHR ''F'') \<and> i - start \<noteq> 5 then Err InvalidBoolean
           else bind_r (slice buf start i) (\<lambda>s.
             let valid =
               (if first = CHR ''t'' then s = ''true''
                else if first = CHR ''f'' then s = ''false''
                else if first = CHR ''T'' then s = ''TRUE'' \<or> s = ''True''
                else if first = CHR ''F'' then s = ''FALSE'' \<or> s = ''False''
                else False)
             in if \<not> valid then Err InvalidBoolean else Ok (i, s)))))"

section \<open>Timestamp scanner\<close>

function scanTime_loop :: "string \<Rightarrow> nat \<Rightarrow> nat \<Rightarrow> nat result" where
  "scanTime_loop buf start i =
     (if i \<ge> length buf then Ok i
      else if buf ! i = newline \<or> buf ! i = CHR '' '' then Ok i
      else if i = start \<and> buf ! i = CHR ''-'' then scanTime_loop buf start (i + 1)
      else if buf ! i < CHR ''0'' \<or> buf ! i > CHR ''9'' then Err BadTimestamp
      else scanTime_loop buf start (i + 1))"
  by pat_completeness auto
termination
  by (relation "measure (\<lambda>(buf, start, i). length buf - i)") auto

declare scanTime_loop.simps [simp del]

definition scanTime :: "string \<Rightarrow> nat \<Rightarrow> (nat \<times> string) result" where
  "scanTime buf i0 =
     (let start = skipWhitespace buf i0
      in bind_r (scanTime_loop buf start start) (\<lambda>i.
           bind_r (slice buf start i) (\<lambda>s. Ok (i, s))))"

section \<open>Key scanner\<close>

datatype scan_state = tagKeyState | tagValueState | fieldsState

function scanMeasurement_loop :: "string \<Rightarrow> nat \<Rightarrow> (scan_state \<times> nat) result" where
  "scanMeasurement_loop buf i0 =
     (let i = i0 + 1 in
      if i \<ge> length buf then Err MissingFields
      else if buf ! (i - 1) = bslash then scanMeasurement_loop buf i
      else if buf ! i = CHR '','' then Ok (tagKeyState, i + 1)
      else if buf ! i = CHR '' '' then Ok (fieldsState, i)
      else scanMeasurement_loop buf i)"
  by pat_completeness auto
termination
  by (relation "measure (\<lambda>(buf, i). length buf - i)") auto

declare scanMeasurement_loop.simps [simp del]

definition scanMeasurement :: "string \<Rightarrow> nat \<Rightarrow> (scan_state \<times> nat) result" where
  "scanMeasurement buf i =
     (if i \<ge> length buf \<or> buf ! i = CHR '','' then Err MissingMeasurement
      else scanMeasurement_loop buf i)"

function scanTagsKey_loop :: "string \<Rightarrow> nat \<Rightarrow> nat result" where
  "scanTagsKey_loop buf i0 =
     (let i = i0 + 1 in
      if i \<ge> length buf
         \<or> ((buf ! i = CHR '' '' \<or> buf ! i = CHR '','') \<and> buf ! (i - 1) \<noteq> bslash)
      then Err MissingTagValue
      else if buf ! i = CHR ''='' \<and> buf ! (i - 1) \<noteq> bslash then Ok (i + 1)
      else scanTagsKey_loop buf i)"
  by pat_completeness auto
termination
  by (relation "measure (\<lambda>(buf, i). length buf - i)") auto

declare scanTagsKey_loop.simps [simp del]

definition scanTagsKey :: "string \<Rightarrow> nat \<Rightarrow> nat result" where
  "scanTagsKey buf i =
     (if i \<ge> length buf \<or> buf ! i = CHR '' '' \<or> buf ! i = CHR '','' \<or> buf ! i = CHR ''=''
      then Err MissingTagKey
      else scanTagsKey_loop buf i)"

function scanTagsValue_loop :: "string \<Rightarrow> nat \<Rightarrow> (scan_state \<times> nat) result" where
  "scanTagsValue_loop buf i0 =
     (let i = i0 + 1 in
      if i \<ge> length buf then Err MissingFields
      else if buf ! i = CHR ''='' \<and> buf ! (i - 1) \<noteq> bslash then Err InvalidTagFormat
      else if buf ! i = CHR '','' \<and> buf ! (i - 1) \<noteq> bslash then Ok (tagKeyState, i + 1)
      else if buf ! i = CHR '' '' \<and> buf ! (i - 1) \<noteq> bslash then Ok (fieldsState, i)
      else scanTagsValue_loop buf i)"
  by pat_completeness auto
termination
  by (relation "measure (\<lambda>(buf, i). length buf - i)") auto

declare scanTagsValue_loop.simps [simp del]

definition scanTagsValue :: "string \<Rightarrow> nat \<Rightarrow> (scan_state \<times> nat) result" where
  "scanTagsValue buf i =
     (if i \<ge> length buf \<or> buf ! i = CHR '','' \<or> buf ! i = CHR '' '' then Err MissingTagValue
      else scanTagsValue_loop buf i)"

lemma scanTagsKey_loop_bounds:
  "scanTagsKey_loop buf i = Ok j \<Longrightarrow> i < j \<and> j \<le> length buf"
proof (induction buf i rule: scanTagsKey_loop.induct)
  case (1 buf i0)
  show ?case
    using "1.prems" "1.IH" [OF refl]
    by (subst (asm) scanTagsKey_loop.simps) (fastforce simp: Let_def split: if_splits)
qed

lemma scanTagsKey_bounds: "scanTagsKey buf i = Ok j \<Longrightarrow> i < j \<and> j \<le> length buf"
  by (auto simp: scanTagsKey_def split: if_splits dest: scanTagsKey_loop_bounds)

lemma scanTagsValue_loop_bounds:
  "scanTagsValue_loop buf i = Ok (st, j) \<Longrightarrow> i < j \<and> j \<le> length buf"
proof (induction buf i rule: scanTagsValue_loop.induct)
  case (1 buf i0)
  show ?case
    using "1.prems" "1.IH" [OF refl]
    by (subst (asm) scanTagsValue_loop.simps) (fastforce simp: Let_def split: if_splits)
qed

lemma scanTagsValue_bounds: "scanTagsValue buf i = Ok (st, j) \<Longrightarrow> i < j \<and> j \<le> length buf"
  by (auto simp: scanTagsValue_def split: if_splits dest: scanTagsValue_loop_bounds)

text \<open>
  \<open>indices\<close> is a slice made with its length alone, so its capacity is its length, and
  the slice that replaces it when it is full has twice that length.
\<close>

definition grow :: "nat list \<Rightarrow> nat list" where
  "grow indices = take (length indices * 2) (indices @ replicate (length indices * 2) 0)"

text \<open>
  The state machine of \<open>scanTags\<close>.  Only the state \<open>tagKeyState\<close> grows the slice; the
  store of the state \<open>fieldsState\<close> is the panic of an index out of range when the slice
  is exactly full.
\<close>

function scanTags_loop ::
  "string \<Rightarrow> scan_state \<Rightarrow> nat \<Rightarrow> nat \<Rightarrow> nat list \<Rightarrow> (nat \<times> nat \<times> nat list) result" where
  "scanTags_loop buf state i commas indices =
     (case state of
        tagKeyState \<Rightarrow>
          (let indices = (if commas \<ge> length indices then grow indices else indices) in
           if commas \<ge> length indices then Err Panic
           else bind_r (scanTagsKey buf i) (\<lambda>i'.
                  scanTags_loop buf tagValueState i' (commas + 1) (indices[commas := i])))
      | tagValueState \<Rightarrow>
          bind_r (scanTagsValue buf i) (\<lambda>(state', i').
            scanTags_loop buf state' i' commas indices)
      | fieldsState \<Rightarrow>
          (if commas \<ge> length indices then Err Panic
           else Ok (i, commas, indices[commas := i + 1])))"
  by pat_completeness auto
termination
  by (relation "measure (\<lambda>(buf, state, i, commas, indices). length buf - i)")
     (auto dest: scanTagsKey_bounds scanTagsValue_bounds)

declare scanTags_loop.simps [simp del]

definition scanTags :: "string \<Rightarrow> nat \<Rightarrow> nat list \<Rightarrow> (nat \<times> nat \<times> nat list) result" where
  "scanTags buf i indices = scanTags_loop buf tagKeyState i 0 indices"

text \<open>\<open>bytes.Compare\<close>: the lexicographic order of byte strings.\<close>

definition bytes_Compare :: "string \<Rightarrow> string \<Rightarrow> int" where
  "bytes_Compare a b = (if a < b then - 1 else if a = b then 0 else 1)"

text \<open>\<open>buf[indices[j]:indices[j+1]-1]\<close>, the span of tag \<open>j\<close> in the first pass.\<close>

definition tagSpan :: "string \<Rightarrow> nat list \<Rightarrow> nat \<Rightarrow> string result" where
  "tagSpan buf indices j =
     bind_r (at indices j) (\<lambda>lo.
     bind_r (at indices (j + 1)) (\<lambda>hi.
       if hi = 0 then Err Panic else slice buf lo (hi - 1)))"

text \<open>
  The first pass over adjacent tags: \<open>Ok True\<close> when no pair is out of order, \<open>Ok False\<close>
  at the first pair that is, and the duplicate error at an equal pair found before that.
\<close>

function tagsSorted :: "string \<Rightarrow> nat list \<Rightarrow> nat \<Rightarrow> nat \<Rightarrow> bool result" where
  "tagsSorted buf indices commas j =
     (if j + 1 < commas then
        bind_r (tagSpan buf indices j) (\<lambda>l.
        bind_r (scanTo l 0 (CHR ''='')) (\<lambda>(_, left).
        bind_r (tagSpan buf indices (j + 1)) (\<lambda>r.
        bind_r (scanTo r 0 (CHR ''='')) (\<lambda>(_, right).
          if bytes_Compare left right > 0 then Ok False
          else if bytes_Compare left right = 0 then Err DuplicateTags
          else tagsSorted buf indices commas (j + 1)))))
      else Ok True)"
  by pat_completeness auto
termination
  by (relation "measure (\<lambda>(buf, indices, commas, j). commas - j)") auto

declare tagsSorted.simps [simp del]

definition less_indices :: "string \<Rightarrow> nat list \<Rightarrow> nat \<Rightarrow> nat \<Rightarrow> bool result" where
  "less_indices buf indices i j =
     bind_r (at indices i) (\<lambda>pi.
     bind_r (scanTo buf pi (CHR ''='')) (\<lambda>(_, a).
     bind_r (at indices j) (\<lambda>pj.
     bind_r (scanTo buf pj (CHR ''='')) (\<lambda>(_, b).
       Ok (bytes_Compare a b < 0)))))"

function insertionSort_inner :: "nat \<Rightarrow> string \<Rightarrow> nat list \<Rightarrow> nat \<Rightarrow> nat list result" where
  "insertionSort_inner l buf indices j =
     (if j > l then
        bind_r (less_indices buf indices j (j - 1)) (\<lambda>lt.
          if lt then
            insertionSort_inner l buf (indices[j := indices ! (j - 1), j - 1 := indices ! j]) (j - 1)
          else Ok indices)
      else Ok indices)"
  by pat_completeness auto
termination
  by (relation "measure (\<lambda>(l, buf, indices, j). j)") auto

declare insertionSort_inner.simps [simp del]

function insertionSort_outer :: "nat \<Rightarrow> nat \<Rightarrow> string \<Rightarrow> nat list \<Rightarrow> nat \<Rightarrow> nat list result" where
  "insertionSort_outer l r buf indices i =
     (if i < r then
        bind_r (insertionSort_inner l buf indices i) (\<lambda>indices'.
          insertionSort_outer l r buf indices' (i + 1))
      else Ok indices)"
  by pat_completeness auto
termination
  by (relation "measure (\<lambda>(l, r, buf, indices, i). r - i)") auto

declare insertionSort_outer.simps [simp del]

definition insertionSort :: "nat \<Rightarrow> nat \<Rightarrow> string \<Rightarrow> nat list \<Rightarrow> nat list result" where
  "insertionSort l r buf indices = insertionSort_outer l r buf indices (l + 1)"

function scanToSpaceOr_loop :: "string \<Rightarrow> nat \<Rightarrow> char \<Rightarrow> nat result" where
  "scanToSpaceOr_loop buf i0 stop =
     (let i = i0 + 1 in
      if i - 1 \<ge> length buf then Err Panic
      else if buf ! (i - 1) = bslash then scanToSpaceOr_loop buf i stop
      else if i \<ge> length buf then Ok i
      else if buf ! i = stop \<or> buf ! i = CHR '' '' then Ok i
      else scanToSpaceOr_loop buf i stop)"
  by pat_completeness auto
termination
  by (relation "measure (\<lambda>(buf, i, stop). length buf - i)") auto

declare scanToSpaceOr_loop.simps [simp del]

definition scanToSpaceOr :: "string \<Rightarrow> nat \<Rightarrow> char \<Rightarrow> (nat \<times> string) result" where
  "scanToSpaceOr buf start stop =
     bind_r (at buf start) (\<lambda>first.
       if first = stop \<or> first = CHR '' '' then bind_r (slice buf start start) (\<lambda>s. Ok (start, s))
       else bind_r (scanToSpaceOr_loop buf start stop) (\<lambda>i.
              bind_r (slice buf start i) (\<lambda>s. Ok (i, s))))"

text \<open>\<open>copy(b[pos:], src)\<close>: the new contents of \<open>b\<close> and the number of bytes copied.\<close>

definition copy_at :: "'a list \<Rightarrow> nat \<Rightarrow> 'a list \<Rightarrow> ('a list \<times> nat) result" where
  "copy_at b pos src =
     (if pos \<le> length b then
        (let n = min (length b - pos) (length src)
         in Ok (take pos b @ take n src @ drop (pos + n) b, n))
      else Err Panic)"

text \<open>The loop that writes a comma and the span of each tag, in the order of \<open>indices\<close>.\<close>

fun rebuildKey :: "string \<Rightarrow> nat list \<Rightarrow> string \<Rightarrow> nat \<Rightarrow> string result" where
  "rebuildKey buf [] b pos = Ok b"
| "rebuildKey buf (i # rest) b pos =
     (if pos \<ge> length b then Err Panic
      else bind_r (scanToSpaceOr buf i (CHR '','')) (\<lambda>(_, v).
           bind_r (copy_at (b[pos := CHR '','']) (pos + 1) v) (\<lambda>(b', n).
             rebuildKey buf rest b' (pos + 1 + n))))"

text \<open>The second pass, over the sorted indices.\<close>

function hasDuplicate :: "string \<Rightarrow> nat list \<Rightarrow> nat \<Rightarrow> nat \<Rightarrow> bool result" where
  "hasDuplicate buf indices commas j =
     (if j + 1 < commas then
        bind_r (at indices j) (\<lambda>pl.
        bind_r (slice buf pl (length buf)) (\<lambda>l.
        bind_r (scanTo l 0 (CHR ''='')) (\<lambda>(_, left).
        bind_r (at indices (j + 1)) (\<lambda>pr.
        bind_r (slice buf pr (length buf)) (\<lambda>r.
        bind_r (scanTo r 0 (CHR ''='')) (\<lambda>(_, right).
          if left = right then Ok True
          else hasDuplicate buf indices commas (j + 1)))))))
      else Ok False)"
  by pat_completeness auto
termination
  by (relation "measure (\<lambda>(buf, indices, commas, j). commas - j)") auto

declare hasDuplicate.simps [simp del]

definition scanKey :: "string \<Rightarrow> nat \<Rightarrow> (nat \<times> string) result" where
  "scanKey buf i0 =
     (let start = skipWhitespace buf i0;
          indices0 = replicate 100 (0::nat)
      in
      bind_r (scanMeasurement buf start) (\<lambda>(state, i1).
      bind_r (if state = tagKeyState then scanTags buf i1 indices0 else Ok (i1, 0, indices0))
        (\<lambda>(i, commas, indices).
      bind_r (tagsSorted buf indices commas 0) (\<lambda>sorted.
        if \<not> sorted \<and> commas > 0 then
          bind_r (at indices 0) (\<lambda>first.
          if first = 0 then Err Panic else
          bind_r (slice buf start (first - 1)) (\<lambda>measurement.
          bind_r (slice indices 0 commas) (\<lambda>indices'.
          bind_r (insertionSort 0 commas buf indices') (\<lambda>sortedIndices.
          bind_r (slice buf start i) (\<lambda>span.
          bind_r (copy_at (replicate (length span) nul) 0 measurement) (\<lambda>(b, pos).
          bind_r (rebuildKey buf sortedIndices b pos) (\<lambda>b'.
          bind_r (hasDuplicate buf sortedIndices commas 0) (\<lambda>dup.
            if dup then Err DuplicateTags else Ok (i, b')))))))))
        else bind_r (slice buf start i) (\<lambda>s. Ok (i, s))))))"

section \<open>Field scanner\<close>

lemma scanNumber_loop_unfold:
  "scanNumber_loop buf start i a b c = Ok r \<Longrightarrow>
     r = (i, a, b, c) \<or> (i < length buf \<and> (\<exists>a' b' c'. scanNumber_loop buf start (Suc i) a' b' c' = Ok r))"
  apply (subst (asm) scanNumber_loop.simps)
  apply (simp only: Let_def split: if_splits)
  apply (simp_all only: Suc_eq_plus1 [symmetric] sum.inject sum.distinct not_le)
  apply blast+
  done

lemma scanNumber_loop_ge:
  "scanNumber_loop buf start i isInt decimal scientific = Ok (e, fl) \<Longrightarrow> i \<le> e"
proof (induction "length buf - i" arbitrary: i isInt decimal scientific rule: less_induct)
  case less
  from scanNumber_loop_unfold [OF less.prems] show ?case
  proof
    assume "(e, fl) = (i, isInt, decimal, scientific)"
    then show ?thesis by simp
  next
    assume "i < length buf \<and> (\<exists>a' b' c'. scanNumber_loop buf start (Suc i) a' b' c' = Ok (e, fl))"
    then obtain a' b' c' where lt: "i < length buf"
      and rec: "scanNumber_loop buf start (Suc i) a' b' c' = Ok (e, fl)"
      by blast
    from lt have "length buf - Suc i < length buf - i" by arith
    from less.hyps [OF this rec] show ?thesis by simp
  qed
qed

lemma scanNumber_ge: "scanNumber ext buf start = Ok e \<Longrightarrow> start \<le> e"
  by (auto simp: scanNumber_def scanNumber_check_def bind_r_def Let_def at_def slice_def
           split: if_splits sum.splits prod.splits dest: scanNumber_loop_ge)

lemma scanBoolean_loop_ge: "i \<le> scanBoolean_loop buf i"
proof (induction buf i rule: scanBoolean_loop.induct)
  case (1 buf i)
  then show ?case by (subst scanBoolean_loop.simps) auto
qed

lemma scanBoolean_gt: "scanBoolean buf start = Ok (e, s) \<Longrightarrow> start < e"
  using scanBoolean_loop_ge [of "start + 1" buf]
  by (auto simp: scanBoolean_def bind_r_def Let_def at_def slice_def
           split: if_splits sum.splits)

text \<open>
  The test \<open>buf[i-1] == c && buf[i-2] != backslash\<close> of \<open>scanFields\<close>, with its two reads
  in the order of the source.
\<close>

definition prevUnescaped :: "string \<Rightarrow> nat \<Rightarrow> char \<Rightarrow> bool result" where
  "prevUnescaped buf i c =
     (if i = 0 then Err Panic
      else if buf ! (i - 1) = c then (if i = 1 then Err Panic else Ok (buf ! (i - 2) \<noteq> bslash))
      else Ok False)"

text \<open>
  The loop of \<open>scanFields\<close>; it returns the index and the three variables at the \<open>break\<close>.
\<close>

function scanFields_loop ::
  "externals \<Rightarrow> string \<Rightarrow> nat \<Rightarrow> bool \<Rightarrow> nat \<Rightarrow> nat \<Rightarrow> (nat \<times> bool \<times> nat \<times> nat) result" where
  "scanFields_loop ext buf i quoted equals commas =
     (if i \<ge> length buf then Ok (i, quoted, equals, commas)
      else if buf ! i = bslash \<and> i + 1 < length buf then
        scanFields_loop ext buf (i + 2) quoted equals commas
      else if buf ! i = dquote \<and> equals > commas then
        scanFields_loop ext buf (i + 1) (\<not> quoted) equals commas
      else if buf ! i = CHR ''='' \<and> \<not> quoted then
        bind_r (prevUnescaped buf i (CHR '' '')) (\<lambda>noKey.
        if noKey then Err MissingFieldKey else
        bind_r (prevUnescaped buf i (CHR '','')) (\<lambda>noKey'.
        if noKey' then Err MissingFieldKey
        else if i + 1 \<ge> length buf then Err MissingFieldValue
        else if buf ! (i + 1) = CHR '','' \<or> buf ! (i + 1) = CHR '' '' then Err MissingFieldValue
        else if isNumeric (buf ! (i + 1)) \<or> buf ! (i + 1) = CHR ''-''
                \<or> buf ! (i + 1) = CHR ''N'' \<or> buf ! (i + 1) = CHR ''n'' then
          bind_r (scanNumber ext buf (i + 1)) (\<lambda>i'.
            scanFields_loop ext buf i' quoted (equals + 1) commas)
        else if buf ! (i + 1) \<noteq> dquote then
          bind_r (scanBoolean buf (i + 1)) (\<lambda>(i', _).
            scanFields_loop ext buf i' quoted (equals + 1) commas)
        else scanFields_loop ext buf (i + 1) quoted (equals + 1) commas))
      else
        (let commas = (if buf ! i = CHR '','' \<and> \<not> quoted then commas + 1 else commas) in
         if buf ! i = CHR '' '' \<and> \<not> quoted then Ok (i, quoted, equals, commas)
         else scanFields_loop ext buf (i + 1) quoted equals commas))"
  by pat_completeness auto
termination
  by (relation "measure (\<lambda>(ext, buf, i, quoted, equals, commas). length buf - i)")
     (auto dest: scanNumber_ge scanBoolean_gt)

declare scanFields_loop.simps [simp del]

definition scanFields :: "externals \<Rightarrow> string \<Rightarrow> nat \<Rightarrow> (nat \<times> string) result" where
  "scanFields ext buf i0 =
     (let start = skipWhitespace buf i0 in
      bind_r (scanFields_loop ext buf start False 0 0) (\<lambda>(i, quoted, equals, commas).
        if quoted then Err UnbalancedQuotes
        else if equals = 0 \<or> int commas \<noteq> int equals - 1 then Err InvalidFieldFormat
        else bind_r (slice buf start i) (\<lambda>s. Ok (i, s))))"

section \<open>Lines\<close>

text \<open>
  A Go \<open>map[string]string\<close> is modelled as an association list with distinct keys:
  \<open>m[k] = v\<close> is \<open>AList.update k v m\<close>, \<open>delete(m, k)\<close> is \<open>AList.delete k m\<close> and a lookup is
  \<^const>\<open>map_of\<close>.  The order of the list stands for one of the iteration orders that Go
  leaves unspecified; the theorems below speak of \<^const>\<open>map_of\<close> and of sets of lines.
\<close>

type_synonym fieldmap = "(string \<times> string) list"

text \<open>\<open>strings.Split(s, ",")\<close> for a separator of one byte.\<close>

fun split_on :: "char \<Rightarrow> string \<Rightarrow> string list" where
  "split_on c [] = [[]]"
| "split_on c (x # xs) =
     (if x = c then [] # split_on c xs
      else (case split_on c xs of [] \<Rightarrow> [[x]] | p # ps \<Rightarrow> (x # p) # ps))"

text \<open>\<open>strings.Index(s, "=")\<close> for a pattern of one byte; \<open>None\<close> is the result -1.\<close>

fun index_of :: "char \<Rightarrow> string \<Rightarrow> nat option" where
  "index_of c [] = None"
| "index_of c (x # xs) = (if x = c then Some 0 else map_option Suc (index_of c xs))"

lemma index_of_less: "index_of c xs = Some i \<Longrightarrow> i < length xs"
  by (induction xs arbitrary: i) (auto split: if_splits)

text \<open>
  The inner loop of \<open>parseMap\<close> on one part \<open>p\<close>: the first \<open>=\<close> from \<open>n\<close> on whose
  preceding byte is not a backslash splits the part; the read \<open>p[n-1]\<close> is out of range
  when that \<open>=\<close> is the first byte of the part.
\<close>

function parseMap_part :: "string \<Rightarrow> nat \<Rightarrow> (string \<times> string) result" where
  "parseMap_part p n =
     (if n > length p then Err Panic
      else (case index_of (CHR ''='') (drop n p) of
              None \<Rightarrow> Err WrongFormat
            | Some i \<Rightarrow>
                if n + i = 0 then Err Panic
                else if p ! (n + i - 1) \<noteq> bslash then Ok (take (n + i) p, drop (n + i + 1) p)
                else parseMap_part p (n + i + 1)))"
  by pat_completeness auto
termination
  by (relation "measure (\<lambda>(p, n). length p - n)") (auto dest: index_of_less)

declare parseMap_part.simps [simp del]

fun parseMap_parts :: "string list \<Rightarrow> fieldmap \<Rightarrow> fieldmap result" where
  "parseMap_parts [] m = Ok m"
| "parseMap_parts (p # ps) m =
     bind_r (parseMap_part p 0) (\<lambda>(k, v). parseMap_parts ps (AList.update k v m))"

definition parseMap :: "string \<Rightarrow> fieldmap result" where
  "parseMap s = parseMap_parts (split_on (CHR '','') s) []"

text \<open>
  \<open>parseLine\<close>.  The errors of \<open>parseMap\<close> are wrapped by the source with a message; the
  model keeps the error itself.  The timestamp is \<open>b[pos+1:]\<close>.
\<close>

definition parseLine :: "externals \<Rightarrow> string \<Rightarrow> (string \<times> fieldmap \<times> string) result" where
  "parseLine ext line =
     bind_r (scanKey line 0) (\<lambda>(pos, keyBytes).
       if length keyBytes = 0 then Err MissingMeasurement
       else if length keyBytes > MaxKeyLength ext then Err MaxKeyLengthExceeded
       else bind_r (scanFields ext line pos) (\<lambda>(pos', fieldBytes).
         if length fieldBytes = 0 then Err MissingFields
         else bind_r (parseMap fieldBytes) (\<lambda>flds.
           bind_r (slice line (pos' + 1) (length line)) (\<lambda>timestamp.
             if timestamp = [] then Err MissingTimestamp
             else Ok (keyBytes, flds, timestamp)))))"

section \<open>An instance of the imported functions\<close>

text \<open>
  The closed examples below need concrete values for the parameters.  This instance
  follows the documentation of \<open>strconv\<close> on the strings that \<open>scanNumber\<close> can pass on
  (decimal digits, one point, an exponent, signs): \<open>ParseInt(s, 10, 64)\<close> succeeds on an
  optionally signed, non-empty digit string whose value fits 64 signed bits, and
  \<open>ParseFloat\<close> succeeds on a decimal literal with at least one mantissa digit that is less
  than half a unit in the last place above the largest finite 64-bit float.
  \<open>MaxKeyLength\<close> is 65535 in the package \<open>models\<close>.
\<close>

definition decimal_value :: "string \<Rightarrow> nat" where
  "decimal_value ds = foldl (\<lambda>n c. 10 * n + (of_char c - 48)) 0 ds"

definition strip_sign :: "string \<Rightarrow> bool \<times> string" where
  "strip_sign s =
     (case s of
        [] \<Rightarrow> (False, [])
      | c # r \<Rightarrow> if c = CHR ''-'' then (True, r) else if c = CHR ''+'' then (False, r) else (False, s))"

definition ParseInt_10_64 :: "string \<Rightarrow> bool" where
  "ParseInt_10_64 s =
     (case strip_sign s of (neg, ds) \<Rightarrow>
        ds \<noteq> [] \<and> list_all is_digit ds
        \<and> (if neg then decimal_value ds \<le> 2 ^ 63 else decimal_value ds < 2 ^ 63))"

definition float64_in_range :: "nat \<Rightarrow> int \<Rightarrow> bool" where
  "float64_in_range m e =
     (if e \<ge> 0 then int m * 10 ^ nat e < 2 ^ 1024 - 2 ^ 970
      else int m < (2 ^ 1024 - 2 ^ 970) * 10 ^ nat (- e))"

definition ParseFloat_64 :: "string \<Rightarrow> bool" where
  "ParseFloat_64 s =
     (let body = snd (strip_sign s);
          ip = takeWhile is_digit body;
          r1 = dropWhile is_digit body;
          fp = (case r1 of [] \<Rightarrow> [] | c # r \<Rightarrow> if c = CHR ''.'' then takeWhile is_digit r else []);
          r2 = (case r1 of [] \<Rightarrow> [] | c # r \<Rightarrow> if c = CHR ''.'' then dropWhile is_digit r else r1);
          m = decimal_value (ip @ fp)
      in ip @ fp \<noteq> [] \<and>
         (case r2 of
            [] \<Rightarrow> float64_in_range m (- int (length fp))
          | c # r \<Rightarrow>
              (c = CHR ''e'' \<or> c = CHR ''E'') \<and>
              (case strip_sign r of (neg, ds) \<Rightarrow>
                 ds \<noteq> [] \<and> list_all is_digit ds \<and>
                 float64_in_range m
                   ((if neg then - int (decimal_value ds) else int (decimal_value ds))
                    - int (length fp)))))"

definition go_strconv :: externals where
  "go_strconv = \<lparr>ParseInt = ParseInt_10_64, ParseFloat = ParseFloat_64, MaxKeyLength = 65535\<rparr>"

section \<open>Aggregator and promoter\<close>

text \<open>
  The table \<open>entries\<close> of \<open>taggify\<close>: canonical key, then timestamp, then field map.
\<close>

type_synonym rows = "(string \<times> fieldmap) list"
type_synonym entries = "(string \<times> rows) list"

definition stopLine :: string where "stopLine = ''# writing wal data''"

text \<open>\<open>strings.HasPrefix\<close>.\<close>

definition HasPrefix :: "string \<Rightarrow> string \<Rightarrow> bool" where
  "HasPrefix s pre = (take (length pre) s = pre)"

text \<open>
  The body of the data loop after a successful \<open>parseLine\<close>: find or create the rows of the
  key and the row of the timestamp, then store every parsed field into the row.
\<close>

definition addPoint :: "entries \<Rightarrow> string \<Rightarrow> fieldmap \<Rightarrow> string \<Rightarrow> entries" where
  "addPoint entries key flds timestamp =
     (let rows = (case map_of entries key of None \<Rightarrow> [] | Some rows \<Rightarrow> rows);
          row = (case map_of rows timestamp of None \<Rightarrow> [] | Some row \<Rightarrow> row);
          row' = fold (\<lambda>(k, v). AList.update k v) flds row
      in AList.update key (AList.update timestamp row' rows) entries)"

text \<open>
  The data loop over the scanned lines: the table, whether the stop line was seen, and
  the lines left for the footer.  The source wraps a parse error with the line; the model
  keeps the error.
\<close>

fun readData :: "externals \<Rightarrow> string list \<Rightarrow> entries \<Rightarrow> (entries \<times> bool \<times> string list) result" where
  "readData ext [] entries = Ok (entries, False, [])"
| "readData ext (l # ls) entries =
     (if HasPrefix l stopLine then Ok (entries, True, ls)
      else bind_r (parseLine ext l) (\<lambda>(key, flds, timestamp).
             readData ext ls (addPoint entries key flds timestamp)))"

text \<open>\<open>strings.Trim(s, cutset)\<close> on bytes.\<close>

definition Trim :: "string \<Rightarrow> string \<Rightarrow> string" where
  "Trim s cutset =
     rev (dropWhile (\<lambda>c. c \<in> set cutset) (rev (dropWhile (\<lambda>c. c \<in> set cutset) s)))"

text \<open>The text that \<open>writeLine\<close> hands to the writer.\<close>

definition writeLine :: "string \<Rightarrow> bool \<Rightarrow> string" where
  "writeLine line appendNewline =
     (if appendNewline \<and> length line > 1 \<and> last line \<noteq> newline then line @ [newline] else line)"

text \<open>The loop over the promotable names for one group: the line so far and the fields left.\<close>

fun promote :: "string list \<Rightarrow> string \<Rightarrow> fieldmap \<Rightarrow> string \<times> fieldmap" where
  "promote [] line flds = (line, flds)"
| "promote (name # names) line flds =
     (case map_of flds name of
        Some v \<Rightarrow>
          promote names (line @ '','' @ name @ ''='' @ Trim v [dquote, squote])
            (AList.delete name flds)
      | None \<Rightarrow> promote names line flds)"

text \<open>The lines written for one group, in the order of its field list.\<close>

definition emitGroup :: "string list \<Rightarrow> string \<Rightarrow> string \<Rightarrow> fieldmap \<Rightarrow> string list" where
  "emitGroup names key timestamp flds =
     (case promote names key flds of (line, flds') \<Rightarrow>
        (let line' = line @ '' '';
             suffix = (if timestamp \<noteq> [] then '' '' @ timestamp else [])
         in map (\<lambda>(k, v). writeLine (line' @ k @ ''='' @ v @ suffix) True) flds'))"

definition emitEntries :: "string list \<Rightarrow> entries \<Rightarrow> string list" where
  "emitEntries names entries =
     concat (map (\<lambda>(key, rows).
       concat (map (\<lambda>(timestamp, flds). emitGroup names key timestamp flds) rows)) entries)"

section \<open>The grammar of \<open>scanTime\<close>\<close>

definition is_space :: "char \<Rightarrow> bool" where
  "is_space c = (c = CHR '' '' \<or> c = tab \<or> c = nul)"

lemma skipWhitespace_append:
  "skipWhitespace (pre @ rest) (length pre) = length pre + length (takeWhile is_space rest)"
proof (induction rest arbitrary: pre)
  case Nil
  show ?case by (subst skipWhitespace.simps) simp
next
  case (Cons x xs)
  have "skipWhitespace ((pre @ [x]) @ xs) (length (pre @ [x]))
          = length (pre @ [x]) + length (takeWhile is_space xs)"
    by (rule Cons.IH)
  then show ?case
    by (subst skipWhitespace.simps) (simp add: is_space_def)
qed

lemma skipWhitespace_eq:
  "i \<le> length buf \<Longrightarrow> skipWhitespace buf i = i + length (takeWhile is_space (drop i buf))"
  using skipWhitespace_append [of "take i buf" "drop i buf"] by simp

text \<open>
  The grammar of the timestamp token in the words of the specification: the token runs up
  to a newline, a space or the end of the buffer; after an optional single leading \<open>-\<close>
  every byte of it is a decimal digit.
\<close>

definition timestamp_token :: "string \<Rightarrow> string" where
  "timestamp_token rest = takeWhile (\<lambda>c. c \<noteq> newline \<and> c \<noteq> CHR '' '') rest"

definition timestamp_grammar :: "string \<Rightarrow> bool" where
  "timestamp_grammar tok =
     list_all is_digit (case tok of [] \<Rightarrow> [] | c # r \<Rightarrow> if c = CHR ''-'' then r else tok)"

lemma not_digit: "(x < CHR ''0'' \<or> CHR ''9'' < x) = (\<not> is_digit x)"
  by (auto simp: is_digit_def)

lemma scanTime_loop_digits:
  "start < length pre \<Longrightarrow>
   scanTime_loop (pre @ rest) start (length pre) =
     (if list_all is_digit (timestamp_token rest)
      then Ok (length pre + length (timestamp_token rest)) else Err BadTimestamp)"
proof (induction rest arbitrary: pre)
  case Nil
  show ?case by (subst scanTime_loop.simps) (simp add: timestamp_token_def)
next
  case (Cons x xs)
  from Cons.prems have "start < length (pre @ [x])" by simp
  from Cons.IH [OF this] Cons.prems show ?case
    by (subst scanTime_loop.simps) (auto simp: timestamp_token_def not_digit)
qed

lemma scanTime_loop_start:
  "scanTime_loop (pre @ rest) (length pre) (length pre) =
     (if timestamp_grammar (timestamp_token rest)
      then Ok (length pre + length (timestamp_token rest)) else Err BadTimestamp)"
proof (cases rest)
  case Nil
  then show ?thesis
    by (subst scanTime_loop.simps) (simp add: timestamp_token_def timestamp_grammar_def)
next
  case (Cons x xs)
  have "scanTime_loop ((pre @ [x]) @ xs) (length pre) (length (pre @ [x])) =
     (if list_all is_digit (timestamp_token xs)
      then Ok (length (pre @ [x]) + length (timestamp_token xs)) else Err BadTimestamp)"
    by (rule scanTime_loop_digits) simp
  with Cons show ?thesis
    by (subst scanTime_loop.simps)
       (auto simp: timestamp_token_def timestamp_grammar_def not_digit)
qed

lemma scanTime_eq:
  assumes "i0 \<le> length buf"
  shows "scanTime buf i0 =
     (let start = i0 + length (takeWhile is_space (drop i0 buf));
          tok = timestamp_token (drop start buf)
      in if timestamp_grammar tok then Ok (start + length tok, tok) else Err BadTimestamp)"
proof -
  let ?start = "i0 + length (takeWhile is_space (drop i0 buf))"
  let ?tok = "timestamp_token (drop ?start buf)"
  have le: "?start \<le> length buf"
    using assms length_takeWhile_le [of is_space "drop i0 buf"] by simp
  have sw: "skipWhitespace buf i0 = ?start" using assms by (rule skipWhitespace_eq)
  have loop: "scanTime_loop buf ?start ?start =
      (if timestamp_grammar ?tok then Ok (?start + length ?tok) else Err BadTimestamp)"
    using scanTime_loop_start [of "take ?start buf" "drop ?start buf"] le by simp
  have tok: "take (length ?tok) (drop ?start buf) = ?tok"
    by (simp add: timestamp_token_def takeWhile_eq_take [symmetric])
  have len: "?start + length ?tok \<le> length buf"
    using length_takeWhile_le [of "\<lambda>c. c \<noteq> newline \<and> c \<noteq> CHR '' ''" "drop ?start buf"] le
    by (simp add: timestamp_token_def)
  show ?thesis
    using len tok by (simp add: scanTime_def sw loop slice_def Let_def)
qed

section \<open>What \<open>parseLine\<close> does with the timestamp\<close>

lemma parseLine_Ok_iff:
  "parseLine ext line = Ok (key, flds, ts) \<longleftrightarrow>
     (\<exists>pos pos' fb. scanKey line 0 = Ok (pos, key) \<and> key \<noteq> [] \<and> length key \<le> MaxKeyLength ext
        \<and> scanFields ext line pos = Ok (pos', fb) \<and> fb \<noteq> [] \<and> parseMap fb = Ok flds
        \<and> pos' + 1 \<le> length line \<and> ts = drop (pos' + 1) line \<and> ts \<noteq> [])"
  by (auto simp: parseLine_def bind_r_def slice_def split: sum.splits prod.splits if_splits)

lemma parseLine_at_end:
  assumes "scanKey line 0 = Ok (pos, kb)" "kb \<noteq> []" "length kb \<le> MaxKeyLength ext"
    and "scanFields ext line pos = Ok (pos', fb)" "fb \<noteq> []" "parseMap fb = Ok m"
  shows "parseLine ext line =
           (if pos' + 1 > length line then Err Panic
            else if pos' + 1 = length line then Err MissingTimestamp
            else Ok (kb, m, drop (pos' + 1) line))"
  using assms by (auto simp: parseLine_def slice_def)


text \<open>Rules for evaluating the scanners on a concrete buffer.\<close>

lemmas key_eval =
  scanKey_def skipWhitespace.simps scanMeasurement_def scanMeasurement_loop.simps
  scanTags_def scanTags_loop.simps scanTagsKey_def scanTagsKey_loop.simps
  scanTagsValue_def scanTagsValue_loop.simps tagsSorted.simps tagSpan_def at_def slice_def
  scanTo_def scanTo_loop.simps bytes_Compare_def insertionSort_def insertionSort_outer.simps
  insertionSort_inner.simps less_indices_def copy_at_def scanToSpaceOr_def
  scanToSpaceOr_loop.simps hasDuplicate.simps grow_def Let_def

lemmas fields_eval =
  scanFields_def scanFields_loop.simps skipWhitespace.simps prevUnescaped_def isNumeric_def
  scanNumber_def scanNumber_loop.simps scanNumber_check_def at_def slice_def
  maxInt64Digits_def minInt64Digits_def maxFloat64Digits_def minFloat64Digits_def
  scanBoolean_def scanBoolean_loop.simps Let_def

lemmas map_eval = parseMap_def parseMap_part.simps

lemma scanKey_cpu:
  "scanKey ''cpu value=1'' 0 = Ok (3, ''cpu'')"
  "scanKey ''cpu value=1 '' 0 = Ok (3, ''cpu'')"
  "scanKey ''cpu value=1 abc'' 0 = Ok (3, ''cpu'')"
  by (simp_all add: key_eval)

lemma scanFields_cpu:
  "scanFields ext ''cpu value=1'' 3 = Ok (11, ''value=1'')"
  "scanFields ext ''cpu value=1 '' 3 = Ok (11, ''value=1'')"
  "scanFields ext ''cpu value=1 abc'' 3 = Ok (11, ''value=1'')"
  by (simp_all add: fields_eval)

lemma parseMap_value: "parseMap ''value=1'' = Ok [(''value'', ''1'')]"
  by (simp add: map_eval)

text \<open>
  C5 (as amended): the timestamp scanner \<open>scanTime\<close> accepts exactly the tokens of the
  grammar: after leading whitespace and an optional single leading \<open>-\<close>, every byte up to
  a newline, a space or the end of the buffer is a decimal digit; any other token is
  rejected with the bad-timestamp error.  \<open>parseLine\<close> does not call it.  A line is
  accepted exactly when its key scans to a non-empty key within the maximum key length,
  its fields scan to a non-empty field section that \<open>parseMap\<close> splits into the field map,
  and at least one byte lies behind the byte that follows the field section; the
  timestamp is then every byte behind that byte, whatever these bytes are.
\<close>

theorem scanTime_enforces_grammar:
  assumes "i0 \<le> length buf"
  shows "scanTime buf i0 =
           (let start = i0 + length (takeWhile is_space (drop i0 buf));
                tok = timestamp_token (drop start buf)
            in if timestamp_grammar tok then Ok (start + length tok, tok) else Err BadTimestamp)
         \<and> (parseLine ext line = Ok (key, flds, ts) \<longleftrightarrow>
               (\<exists>pos pos' fb. scanKey line 0 = Ok (pos, key) \<and> key \<noteq> []
                  \<and> length key \<le> MaxKeyLength ext
                  \<and> scanFields ext line pos = Ok (pos', fb) \<and> fb \<noteq> []
                  \<and> parseMap fb = Ok flds
                  \<and> pos' + 1 < length line \<and> ts = drop (pos' + 1) line))"
proof
  show "scanTime buf i0 =
           (let start = i0 + length (takeWhile is_space (drop i0 buf));
                tok = timestamp_token (drop start buf)
            in if timestamp_grammar tok then Ok (start + length tok, tok) else Err BadTimestamp)"
    using assms by (rule scanTime_eq)
next
  have "pos' + 1 \<le> length line \<and> ts = drop (pos' + 1) line \<and> ts \<noteq> [] \<longleftrightarrow>
          pos' + 1 < length line \<and> ts = drop (pos' + 1) line" for pos'
    by auto
  then show "parseLine ext line = Ok (key, flds, ts) \<longleftrightarrow>
               (\<exists>pos pos' fb. scanKey line 0 = Ok (pos, key) \<and> key \<noteq> []
                  \<and> length key \<le> MaxKeyLength ext
                  \<and> scanFields ext line pos = Ok (pos', fb) \<and> fb \<noteq> []
                  \<and> parseMap fb = Ok flds
                  \<and> pos' + 1 < length line \<and> ts = drop (pos' + 1) line)"
    unfolding parseLine_Ok_iff by simp
qed

text \<open>
  The scanner accepts the token \<open>-42\<close>; the parser accepts the line whose last bytes are
  \<open>4x 2\<close>, and these four bytes are its timestamp.
\<close>

theorem scanTime_enforces_grammar_witness:
  "(11::nat) \<le> length ''cpu value=1 -42''
   \<and> scanTime ''cpu value=1 -42'' 11 = Ok (15, ''-42'')
   \<and> parseLine go_strconv ''cpu value=1 4x 2'' = Ok (''cpu'', [(''value'', ''1'')], ''4x 2'')"
proof -
  have h: "(11::nat) \<le> length ''cpu value=1 -42''" by simp
  have k: "scanKey ''cpu value=1 4x 2'' 0 = Ok (3, ''cpu'')" by (simp add: key_eval)
  have f: "scanFields go_strconv ''cpu value=1 4x 2'' 3 = Ok (11, ''value=1'')"
    by (simp add: fields_eval)
  have mk: "MaxKeyLength go_strconv = 65535" by (simp add: go_strconv_def)
  have "\<exists>pos pos' fb. scanKey ''cpu value=1 4x 2'' 0 = Ok (pos, ''cpu'') \<and> ''cpu'' \<noteq> []
          \<and> length ''cpu'' \<le> MaxKeyLength go_strconv
          \<and> scanFields go_strconv ''cpu value=1 4x 2'' pos = Ok (pos', fb) \<and> fb \<noteq> []
          \<and> parseMap fb = Ok [(''value'', ''1'')]
          \<and> pos' + 1 < length ''cpu value=1 4x 2''
          \<and> ''4x 2'' = drop (pos' + 1) ''cpu value=1 4x 2''"
    by (rule exI [of _ 3], rule exI [of _ 11], rule exI [of _ "''value=1''"])
       (simp add: k f parseMap_value mk)
  with scanTime_enforces_grammar
         [OF h, of go_strconv "''cpu value=1 4x 2''" "''cpu''" "[(''value'', ''1'')]" "''4x 2''"] h
  show ?thesis
    by (simp add: is_space_def timestamp_token_def timestamp_grammar_def is_digit_def)
qed

text \<open>
  C5 as stated fails: the line \<open>cpu value=1 abc\<close> is accepted with the timestamp \<open>abc\<close>,
  a token that \<open>scanTime\<close> rejects at the same place.
\<close>

theorem parseLine_unvalidated_timestamp_counterexample:
  "parseLine go_strconv ''cpu value=1 abc'' = Ok (''cpu'', [(''value'', ''1'')], ''abc'')
   \<and> scanTime ''cpu value=1 abc'' 11 = Err BadTimestamp"
proof
  show "parseLine go_strconv ''cpu value=1 abc'' = Ok (''cpu'', [(''value'', ''1'')], ''abc'')"
    using parseLine_at_end [OF scanKey_cpu(3) _ _ scanFields_cpu(3) _ parseMap_value, of go_strconv]
    by (simp add: go_strconv_def)
  show "scanTime ''cpu value=1 abc'' 11 = Err BadTimestamp"
    by (simp add: scanTime_def skipWhitespace.simps scanTime_loop.simps)
qed

text \<open>
  C6 (as amended): the timestamp is required.  \<open>parseLine\<close> never returns an empty
  timestamp.  Let the key of a line scan to a non-empty key within the maximum key length
  and let its fields scan to a non-empty field section that \<open>parseMap\<close> splits into a
  field map.  If the line ends with the one byte that follows the field section, it is
  rejected with the missing-timestamp error; if more bytes follow, the line is accepted
  and these bytes are its timestamp, be they blank or not.
\<close>

theorem parseLine_requires_timestamp:
  "(parseLine ext line = Ok (key, flds, ts) \<longrightarrow> ts \<noteq> [])
   \<and> (scanKey line 0 = Ok (pos, kb) \<and> kb \<noteq> [] \<and> length kb \<le> MaxKeyLength ext
        \<and> scanFields ext line pos = Ok (pos', fb) \<and> fb \<noteq> [] \<and> parseMap fb = Ok m
      \<longrightarrow> (pos' + 1 = length line \<longrightarrow> parseLine ext line = Err MissingTimestamp)
        \<and> (pos' + 1 < length line \<longrightarrow> parseLine ext line = Ok (kb, m, drop (pos' + 1) line)))"
proof
  show "parseLine ext line = Ok (key, flds, ts) \<longrightarrow> ts \<noteq> []"
    unfolding parseLine_Ok_iff by blast
next
  show "scanKey line 0 = Ok (pos, kb) \<and> kb \<noteq> [] \<and> length kb \<le> MaxKeyLength ext
        \<and> scanFields ext line pos = Ok (pos', fb) \<and> fb \<noteq> [] \<and> parseMap fb = Ok m
      \<longrightarrow> (pos' + 1 = length line \<longrightarrow> parseLine ext line = Err MissingTimestamp)
        \<and> (pos' + 1 < length line \<longrightarrow> parseLine ext line = Ok (kb, m, drop (pos' + 1) line))"
    by (auto simp: parseLine_at_end)
qed

text \<open>
  The line \<open>m f=t\<close> with one blank behind it is rejected; with two blanks behind it, it is
  accepted and its timestamp is one blank.
\<close>

theorem parseLine_requires_timestamp_witness:
  "scanKey ''m f=t '' 0 = Ok (1, ''m'') \<and> scanFields go_strconv ''m f=t '' 1 = Ok (5, ''f=t'')
   \<and> scanKey ''m f=t  '' 0 = Ok (1, ''m'') \<and> scanFields go_strconv ''m f=t  '' 1 = Ok (5, ''f=t'')
   \<and> parseMap ''f=t'' = Ok [(''f'', ''t'')]
   \<and> parseLine go_strconv ''m f=t '' = Err MissingTimestamp
   \<and> parseLine go_strconv ''m f=t  '' = Ok (''m'', [(''f'', ''t'')], '' '')"
proof -
  have k: "scanKey ''m f=t '' 0 = Ok (1, ''m'')" by (simp add: key_eval)
  have f: "scanFields go_strconv ''m f=t '' 1 = Ok (5, ''f=t'')" by (simp add: fields_eval)
  have k2: "scanKey ''m f=t  '' 0 = Ok (1, ''m'')" by (simp add: key_eval)
  have f2: "scanFields go_strconv ''m f=t  '' 1 = Ok (5, ''f=t'')" by (simp add: fields_eval)
  have m: "parseMap ''f=t'' = Ok [(''f'', ''t'')]" by (simp add: map_eval)
  from parseLine_requires_timestamp
         [of go_strconv "''m f=t ''" "[]" "[]" "[]" 1 "''m''" 5 "''f=t''" "[(''f'', ''t'')]"]
       parseLine_requires_timestamp
         [of go_strconv "''m f=t  ''" "[]" "[]" "[]" 1 "''m''" 5 "''f=t''" "[(''f'', ''t'')]"]
       k f k2 f2 m
  show ?thesis by (simp add: go_strconv_def)
qed

text \<open>
  C6 as stated fails: \<open>cpu value=1\<close> followed by one space has a valid key and valid
  fields and no timestamp token, and it is rejected.
\<close>

theorem parseLine_missing_timestamp_counterexample:
  "parseLine go_strconv ''cpu value=1 '' = Err MissingTimestamp"
  using parseLine_at_end [OF scanKey_cpu(2) _ _ scanFields_cpu(2) _ parseMap_value, of go_strconv]
  by (simp add: go_strconv_def)

text \<open>
  C10 fails on the code: whenever the key and the fields scan successfully and the field
  section runs to the end of the buffer, the slice \<open>b[pos+1:]\<close> is out of bounds and
  \<open>parseLine\<close> panics instead of returning a result or an error.
\<close>

theorem parseLine_panics_at_end_of_buffer:
  assumes "scanKey line 0 = Ok (pos, kb)" "kb \<noteq> []" "length kb \<le> MaxKeyLength ext"
    and "scanFields ext line pos = Ok (pos', fb)" "fb \<noteq> []" "parseMap fb = Ok m"
    and "pos' = length line"
  shows "parseLine ext line = Err Panic"
  using assms by (simp add: parseLine_at_end)

theorem parseLine_panics_at_end_of_buffer_witness:
  "scanKey ''cpu value=1'' 0 = Ok (3, ''cpu'')
   \<and> scanFields go_strconv ''cpu value=1'' 3 = Ok (11, ''value=1'')
   \<and> parseMap ''value=1'' = Ok [(''value'', ''1'')]
   \<and> parseLine go_strconv ''cpu value=1'' = Err Panic"
  using parseLine_panics_at_end_of_buffer
          [OF scanKey_cpu(1) _ _ scanFields_cpu(1) _ parseMap_value, of go_strconv]
        scanKey_cpu(1) scanFields_cpu(1) [of go_strconv] parseMap_value
  by (simp add: go_strconv_def)

section \<open>The grammar of \<open>scanNumber\<close>\<close>

lemma nth_append_before: "q \<noteq> [] \<Longrightarrow> (q @ r) ! (length q - 1) = last q"
  by (simp add: nth_append last_conv_nth)

lemma isNumeric_simps [simp]:
  "\<not> isNumeric (CHR ''N'')" "\<not> isNumeric (CHR ''n'')" "\<not> isNumeric (CHR ''i'')"
  "\<not> isNumeric (CHR ''e'')" "\<not> isNumeric (CHR ''E'')" "\<not> isNumeric (CHR ''+'')"
  "\<not> isNumeric (CHR ''-'')" "isNumeric (CHR ''.'')"
  by (simp_all add: isNumeric_def less_eq_char_def)

text \<open>One turn of the loop of \<open>scanNumber\<close> on the byte \<open>x\<close> that follows the bytes \<open>q\<close>.\<close>

lemma scanNumber_loop_step_NaN:
  assumes "q \<noteq> []" "x \<noteq> CHR '',''" "x \<noteq> CHR '' ''"
  shows "scanNumber_loop (q @ x # r) start (length q) a b c =
     (if x = CHR ''i'' \<and> length q > start \<and> \<not> a then
        scanNumber_loop ((q @ [x]) @ r) start (length (q @ [x])) True b c
      else if x = CHR ''.'' \<and> b then Err InvalidNumber
      else if length q > start \<and> (x = CHR ''e'' \<or> x = CHR ''E'') then
        scanNumber_loop ((q @ [x]) @ r) start (length (q @ [x])) a (b \<or> x = CHR ''.'') True
      else if (x = CHR ''+'' \<or> x = CHR ''-'') \<and> (last q = CHR ''e'' \<or> last q = CHR ''E'') then
        scanNumber_loop ((q @ [x]) @ r) start (length (q @ [x])) a (b \<or> x = CHR ''.'') c
      else if length q + 2 < length (q @ x # r) \<and> (x = CHR ''N'' \<or> x = CHR ''n'') then
        Err InvalidNumber
      else if \<not> isNumeric x then Err InvalidNumber
      else scanNumber_loop ((q @ [x]) @ r) start (length (q @ [x])) a (b \<or> x = CHR ''.'') c)"
  using assms nth_append_before [of q "x # r"]
  by (subst scanNumber_loop.simps) (simp add: Let_def split del: if_split cong: if_cong)

lemma scanNumber_loop_step:
  assumes "q \<noteq> []" "x \<noteq> CHR '',''" "x \<noteq> CHR '' ''"
  shows "scanNumber_loop (q @ x # r) start (length q) a b c =
     (if x = CHR ''i'' \<and> length q > start \<and> \<not> a then
        scanNumber_loop ((q @ [x]) @ r) start (length (q @ [x])) True b c
      else if x = CHR ''.'' \<and> b then Err InvalidNumber
      else if length q > start \<and> (x = CHR ''e'' \<or> x = CHR ''E'') then
        scanNumber_loop ((q @ [x]) @ r) start (length (q @ [x])) a (b \<or> x = CHR ''.'') True
      else if (x = CHR ''+'' \<or> x = CHR ''-'') \<and> (last q = CHR ''e'' \<or> last q = CHR ''E'') then
        scanNumber_loop ((q @ [x]) @ r) start (length (q @ [x])) a (b \<or> x = CHR ''.'') c
      else if \<not> isNumeric x then Err InvalidNumber
      else scanNumber_loop ((q @ [x]) @ r) start (length (q @ [x])) a (b \<or> x = CHR ''.'') c)"
proof -
  consider (N) "x = CHR ''N''" | (n) "x = CHR ''n''" | (other) "x \<noteq> CHR ''N''" "x \<noteq> CHR ''n''"
    by blast
  then show ?thesis
  proof cases
    case N
    show ?thesis
      using scanNumber_loop_step_NaN [OF assms, of r start a b c] by (simp add: N)
  next
    case n
    show ?thesis
      using scanNumber_loop_step_NaN [OF assms, of r start a b c] by (simp add: n)
  next
    case other
    show ?thesis
      unfolding scanNumber_loop_step_NaN [OF assms] using other
      by (simp split del: if_split cong: if_cong)
  qed
qed

lemma scanNumber_loop_end:
  assumes "r = [] \<or> hd r = CHR '','' \<or> hd r = CHR '' ''"
  shows "scanNumber_loop (q @ r) start (length q) a b c = Ok (length q, a, b, c)"
  using assms by (subst scanNumber_loop.simps) (cases r; simp)

text \<open>
  The loop of \<open>scanNumber\<close> read on the bytes of the token alone: \<open>prev\<close> is the byte before
  the current one, \<open>past\<close> tells whether the current index is beyond the start index, and
  \<open>None\<close> is the invalid-number error.
\<close>

function number_flags ::
  "char \<Rightarrow> bool \<Rightarrow> string \<Rightarrow> bool \<Rightarrow> bool \<Rightarrow> bool \<Rightarrow> (bool \<times> bool \<times> bool) option" where
  "number_flags prev past [] a b c = Some (a, b, c)"
| "number_flags prev past (x # xs) a b c =
     (if x = CHR ''i'' \<and> past \<and> \<not> a then number_flags x True xs True b c
      else if x = CHR ''.'' \<and> b then None
      else if past \<and> (x = CHR ''e'' \<or> x = CHR ''E'') then number_flags x True xs a (b \<or> x = CHR ''.'') True
      else if (x = CHR ''+'' \<or> x = CHR ''-'') \<and> (prev = CHR ''e'' \<or> prev = CHR ''E'') then
        number_flags x True xs a (b \<or> x = CHR ''.'') c
      else if \<not> isNumeric x then None
      else number_flags x True xs a (b \<or> x = CHR ''.'') c)"
  by pat_completeness auto
termination
  by (relation "measure (\<lambda>(prev, past, xs, a, b, c). length xs)") auto

declare number_flags.simps(2) [simp del]

lemma scanNumber_loop_token:
  assumes "q \<noteq> []" "start \<le> length q" "\<forall>x\<in>set rest. x \<noteq> CHR '','' \<and> x \<noteq> CHR '' ''"
    and "post = [] \<or> hd post = CHR '','' \<or> hd post = CHR '' ''"
  shows "scanNumber_loop (q @ rest @ post) start (length q) a b c =
     (case number_flags (last q) (start < length q) rest a b c of
        None \<Rightarrow> Err InvalidNumber
      | Some f \<Rightarrow> Ok (length q + length rest, f))"
  using assms
proof (induction rest arbitrary: q a b c)
  case Nil
  then show ?case by (simp add: scanNumber_loop_end)
next
  case (Cons x xs)
  have IH: "scanNumber_loop ((q @ [x]) @ xs @ post) start (length (q @ [x])) a' b' c' =
     (case number_flags x True xs a' b' c' of
        None \<Rightarrow> Err InvalidNumber
      | Some f \<Rightarrow> Ok (length q + length (x # xs), f))" for a' b' c'
    using Cons.IH [of "q @ [x]" a' b' c'] Cons.prems
    by (simp add: less_Suc_eq_le cong: option.case_cong)
  from Cons.prems have x: "x \<noteq> CHR '',''" "x \<noteq> CHR '' ''" by simp_all
  show ?case
    unfolding append_Cons scanNumber_loop_step [OF Cons.prems(1) x] IH number_flags.simps(2)
      if_distrib [where f = "case_option (Err InvalidNumber) (\<lambda>f. Ok (length q + length (x # xs), f))"]
      option.case
    by (rule refl)
qed


lemma isNumeric_iff: "isNumeric x \<longleftrightarrow> is_digit x \<or> x = CHR ''.''"
  by (simp add: isNumeric_def is_digit_def)

lemma number_flags_ConsE:
  assumes "number_flags prev past (x # xs) a b c = Some f"
  obtains
    (int) "x = CHR ''i''" "past" "\<not> a" "number_flags x True xs True b c = Some f"
  | (exp) "x = CHR ''e'' \<or> x = CHR ''E''" "past" "number_flags x True xs a b True = Some f"
  | (sign) "x = CHR ''+'' \<or> x = CHR ''-''" "prev = CHR ''e'' \<or> prev = CHR ''E''"
      "number_flags x True xs a b c = Some f"
  | (dot) "x = CHR ''.''" "\<not> b" "number_flags x True xs a True c = Some f"
  | (digit) "is_digit x" "number_flags x True xs a b c = Some f"
proof -
  consider (i) "x = CHR ''i''" | (d) "x = CHR ''.''" | (e) "x = CHR ''e'' \<or> x = CHR ''E''"
    | (s) "x = CHR ''+'' \<or> x = CHR ''-''"
    | (o) "x \<noteq> CHR ''i''" "x \<noteq> CHR ''.''" "x \<noteq> CHR ''e''" "x \<noteq> CHR ''E''"
        "x \<noteq> CHR ''+''" "x \<noteq> CHR ''-''"
    by blast
  then show thesis
  proof cases
    case i
    with assms int show thesis
      by (simp add: number_flags.simps(2) split: if_splits)
  next
    case d
    with assms dot show thesis
      by (simp add: number_flags.simps(2) split: if_splits)
  next
    case e
    with assms have "past \<and> number_flags x True xs a b True = Some f"
      by (elim disjE; simp add: number_flags.simps(2) split: if_splits)
    with e exp show thesis by blast
  next
    case s
    with assms have "(prev = CHR ''e'' \<or> prev = CHR ''E'') \<and> number_flags x True xs a b c = Some f"
      by (elim disjE; simp add: number_flags.simps(2) split: if_splits)
    with s sign show thesis by blast
  next
    case o
    with assms digit show thesis
      by (simp add: number_flags.simps(2) isNumeric_iff split: if_splits)
  qed
qed

lemma number_flags_result:
  "number_flags prev past tok a b c = Some (a', b', c') \<Longrightarrow>
     a' = (a \<or> CHR ''i'' \<in> set tok) \<and> b' = (b \<or> CHR ''.'' \<in> set tok)
     \<and> c' = (c \<or> CHR ''e'' \<in> set tok \<or> CHR ''E'' \<in> set tok)"
proof (induction tok arbitrary: prev past a b c)
  case Nil
  then show ?case by simp
next
  case (Cons x xs)
  from Cons.prems show ?case
  proof (cases rule: number_flags_ConsE)
    case int
    from Cons.IH [OF int(4)] int(1) show ?thesis by simp
  next
    case exp
    from Cons.IH [OF exp(3)] exp(1) show ?thesis by auto
  next
    case sign
    from Cons.IH [OF sign(3)] sign(1) show ?thesis by auto
  next
    case dot
    from Cons.IH [OF dot(3)] dot(1) show ?thesis by simp
  next
    case digit
    then have "x \<noteq> CHR ''i''" "x \<noteq> CHR ''.''" "x \<noteq> CHR ''e''" "x \<noteq> CHR ''E''"
      by (auto simp: is_digit_def)
    with Cons.IH [OF digit(2)] show ?thesis by simp
  qed
qed

lemma number_flags_alphabet:
  "number_flags prev past tok a b c = Some f \<Longrightarrow>
     \<forall>x\<in>set tok. is_digit x \<or> x \<in> set ''.eE+-i''"
proof (induction tok arbitrary: prev past a b c)
  case Nil
  then show ?case by simp
next
  case (Cons x xs)
  from Cons.prems have "(is_digit x \<or> x \<in> set ''.eE+-i'') \<and> (\<exists>a' b' c'. number_flags x True xs a' b' c' = Some f)"
    by (cases rule: number_flags_ConsE) auto
  then obtain a' b' c' where x: "is_digit x \<or> x \<in> set ''.eE+-i''"
    and rec: "number_flags x True xs a' b' c' = Some f"
    by blast
  from Cons.IH [OF rec] x show ?case by simp
qed

lemma number_flags_no_digits:
  "number_flags prev past tok a b c = Some f \<Longrightarrow> \<forall>x\<in>set tok. \<not> is_digit x \<Longrightarrow>
   CHR ''e'' \<notin> set tok \<Longrightarrow> CHR ''E'' \<notin> set tok \<Longrightarrow> prev \<noteq> CHR ''e'' \<Longrightarrow> prev \<noteq> CHR ''E'' \<Longrightarrow>
     distinct tok \<and> set tok \<subseteq> {CHR ''i'', CHR ''.''}
     \<and> (a \<longrightarrow> CHR ''i'' \<notin> set tok) \<and> (b \<longrightarrow> CHR ''.'' \<notin> set tok)"
proof (induction tok arbitrary: prev past a b c)
  case Nil
  then show ?case by simp
next
  case (Cons x xs)
  from Cons.prems(2-4) have xs: "\<forall>x\<in>set xs. \<not> is_digit x" "CHR ''e'' \<notin> set xs" "CHR ''E'' \<notin> set xs"
    and x: "\<not> is_digit x" "x \<noteq> CHR ''e''" "x \<noteq> CHR ''E''"
    by auto
  from Cons.prems(1) show ?case
  proof (cases rule: number_flags_ConsE)
    case int
    from Cons.IH [OF int(4) xs] int(1-3) show ?thesis by simp
  next
    case exp
    with x show ?thesis by blast
  next
    case sign
    with Cons.prems(5,6) show ?thesis by blast
  next
    case dot
    from Cons.IH [OF dot(3) xs] dot(1,2) show ?thesis by simp
  next
    case digit
    with x show ?thesis by blast
  qed
qed


text \<open>
  A token in its buffer: the bytes \<open>pre\<close> before it are not empty (the scanner is called
  behind an \<open>=\<close>), the token holds neither comma nor space, and the buffer ends or goes on
  with a comma or a space behind it.
\<close>

definition number_token :: "string \<Rightarrow> string \<Rightarrow> string \<Rightarrow> bool" where
  "number_token pre tok post \<longleftrightarrow>
     pre \<noteq> [] \<and> tok \<noteq> [] \<and> (\<forall>x\<in>set tok. x \<noteq> CHR '','' \<and> x \<noteq> CHR '' '')
     \<and> (post = [] \<or> hd post = CHR '','' \<or> hd post = CHR '' '')"

lemma scanNumber_check_token:
  assumes "tok \<noteq> []"
  shows "scanNumber_check ext (pre @ tok @ post) (length pre) (length pre + length tok, a, b, c) =
     (if a \<and> (b \<or> c) then Err InvalidNumber
      else if int (length tok) - (if a then 1 else 0) - (if b then 1 else 0)
                - (if hd tok = CHR ''-'' then 1 else 0) = 0 then Err InvalidNumber
      else if a then
        (if last tok \<noteq> CHR ''i'' then Err InvalidNumber
         else if (length (butlast tok) \<ge> maxInt64Digits \<or> length (butlast tok) \<ge> minInt64Digits)
                 \<and> \<not> ParseInt ext (butlast tok)
         then Err (UnparsableInteger (butlast tok))
         else Ok (length pre + length tok))
      else if (c \<or> length tok \<ge> maxFloat64Digits \<or> length tok \<ge> minFloat64Digits)
              \<and> \<not> ParseFloat ext tok
      then Err InvalidFloat
      else Ok (length pre + length tok))"
proof -
  from assms have at: "at (pre @ tok @ post) (length pre) = Ok (hd tok)"
    by (simp add: at_def nth_append hd_conv_nth)
  from assms have eq: "length pre + length tok - Suc 0 = length pre + (length tok - Suc 0)"
    by (cases tok) simp_all
  from assms have last: "(pre @ tok @ post) ! (length pre + length tok - Suc 0) = last tok"
    unfolding eq nth_append_length_plus by (simp add: nth_append last_conv_nth)
  from assms have s1: "slice (pre @ tok @ post) (length pre) (length pre + length tok - Suc 0) = Ok (butlast tok)"
    unfolding eq by (simp add: slice_def butlast_conv_take)
  have s2: "slice (pre @ tok @ post) (length pre) (length pre + length tok) = Ok tok"
    by (simp add: slice_def)
  show ?thesis
    unfolding scanNumber_check_def prod.case at bind_r_simps Let_def
    using assms by (simp add: last s1 s2 split del: if_split cong: if_cong)
qed

lemma bind_r_case_option:
  "bind_r (case x of None \<Rightarrow> Err e | Some f \<Rightarrow> Ok (g f)) h =
     (case x of None \<Rightarrow> Err e | Some f \<Rightarrow> h (g f))"
  by (cases x) simp_all

lemma scanNumber_negative_token:
  assumes "pre \<noteq> []" "\<forall>x\<in>set t. x \<noteq> CHR '','' \<and> x \<noteq> CHR '' ''"
    and "post = [] \<or> hd post = CHR '','' \<or> hd post = CHR '' ''"
  shows "scanNumber ext (pre @ CHR ''-'' # t @ post) (length pre) =
     (if t = [] \<and> post = [] then Err InvalidNumber
      else case number_flags (CHR ''-'') True t False False False of
             None \<Rightarrow> Err InvalidNumber
           | Some f \<Rightarrow> scanNumber_check ext (pre @ CHR ''-'' # t @ post) (length pre)
                        (Suc (length pre + length t), f))"
proof -
  have "scanNumber_loop ((pre @ ''-'') @ t @ post) (length pre) (length (pre @ ''-'')) False False False =
     (case number_flags (last (pre @ ''-'')) (length pre < length (pre @ ''-'')) t False False False of
        None \<Rightarrow> Err InvalidNumber
      | Some f \<Rightarrow> Ok (length (pre @ ''-'') + length t, f))"
    using assms by (intro scanNumber_loop_token) simp_all
  then have loop: "scanNumber_loop (pre @ CHR ''-'' # t @ post) (length pre) (Suc (length pre)) False False False =
     (case number_flags (CHR ''-'') True t False False False of
        None \<Rightarrow> Err InvalidNumber
      | Some f \<Rightarrow> Ok (Suc (length pre + length t), f))"
    by (simp cong: option.case_cong)
  have "scanNumber ext (pre @ CHR ''-'' # t @ post) (length pre) =
     (if t = [] \<and> post = [] then Err InvalidNumber
      else bind_r (scanNumber_loop (pre @ CHR ''-'' # t @ post) (length pre) (Suc (length pre)) False False False)
             (scanNumber_check ext (pre @ CHR ''-'' # t @ post) (length pre)))"
    by (simp add: scanNumber_def split del: if_split cong: if_cong)
  then show ?thesis
    unfolding loop bind_r_case_option .
qed

lemma scanNumber_positive_token:
  assumes "pre \<noteq> []" "tok \<noteq> []" "hd tok \<noteq> CHR ''-''"
    and "\<forall>x\<in>set tok. x \<noteq> CHR '','' \<and> x \<noteq> CHR '' ''"
    and "post = [] \<or> hd post = CHR '','' \<or> hd post = CHR '' ''"
  shows "scanNumber ext (pre @ tok @ post) (length pre) =
     (case number_flags (last pre) False tok False False False of
        None \<Rightarrow> Err InvalidNumber
      | Some f \<Rightarrow> scanNumber_check ext (pre @ tok @ post) (length pre)
                   (length pre + length tok, f))"
proof -
  have "scanNumber_loop (pre @ tok @ post) (length pre) (length pre) False False False =
     (case number_flags (last pre) (length pre < length pre) tok False False False of
        None \<Rightarrow> Err InvalidNumber
      | Some f \<Rightarrow> Ok (length pre + length tok, f))"
    using assms by (intro scanNumber_loop_token) simp_all
  then have loop: "scanNumber_loop (pre @ tok @ post) (length pre) (length pre) False False False =
     (case number_flags (last pre) False tok False False False of
        None \<Rightarrow> Err InvalidNumber
      | Some f \<Rightarrow> Ok (length pre + length tok, f))"
    by simp
  from assms have first: "(pre @ tok @ post) ! length pre \<noteq> CHR ''-''"
    by (auto simp: nth_append hd_conv_nth)
  have "scanNumber ext (pre @ tok @ post) (length pre) =
     bind_r (scanNumber_loop (pre @ tok @ post) (length pre) (length pre) False False False)
       (scanNumber_check ext (pre @ tok @ post) (length pre))"
    using first by (simp add: scanNumber_def split del: if_split cong: if_cong)
  then show ?thesis
    unfolding loop bind_r_case_option .
qed


lemma scanNumber_check_int_float:
  "b \<or> c \<Longrightarrow> scanNumber_check ext buf start (e, True, b, c) = Err InvalidNumber"
  by (simp add: scanNumber_check_def)

lemma scanNumber_int_with_point_or_exponent:
  assumes "number_token pre tok post" "CHR ''i'' \<in> set tok"
    and "CHR ''.'' \<in> set tok \<or> CHR ''e'' \<in> set tok \<or> CHR ''E'' \<in> set tok"
  shows "scanNumber ext (pre @ tok @ post) (length pre) = Err InvalidNumber"
proof (cases "hd tok = CHR ''-''")
  case True
  with assms(1) obtain t where tok: "tok = CHR ''-'' # t"
    by (cases tok) (auto simp: number_token_def)
  from assms tok have t: "CHR ''i'' \<in> set t" "CHR ''.'' \<in> set t \<or> CHR ''e'' \<in> set t \<or> CHR ''E'' \<in> set t"
    by auto
  from assms(1) tok have tk: "pre \<noteq> []" "\<forall>x\<in>set t. x \<noteq> CHR '','' \<and> x \<noteq> CHR '' ''"
    "post = [] \<or> hd post = CHR '','' \<or> hd post = CHR '' ''"
    by (auto simp: number_token_def)
  show ?thesis
  proof (cases "number_flags (CHR ''-'') True t False False False")
    case None
    with t show ?thesis
      unfolding tok append_Cons scanNumber_negative_token [OF tk] by auto
  next
    case (Some f)
    obtain a b c where f: "f = (a, b, c)" by (cases f)
    from number_flags_result [OF Some [unfolded f]] t have "a" "b \<or> c" by auto
    with Some t show ?thesis
      unfolding tok append_Cons scanNumber_negative_token [OF tk] f
      by (auto simp: scanNumber_check_int_float)
  qed
next
  case False
  from assms(1) have tk: "pre \<noteq> []" "tok \<noteq> []"
    and tk': "\<forall>x\<in>set tok. x \<noteq> CHR '','' \<and> x \<noteq> CHR '' ''"
    "post = [] \<or> hd post = CHR '','' \<or> hd post = CHR '' ''"
    by (auto simp: number_token_def)
  show ?thesis
  proof (cases "number_flags (last pre) False tok False False False")
    case None
    then show ?thesis
      unfolding scanNumber_positive_token [OF tk False tk'] by simp
  next
    case (Some f)
    obtain a b c where f: "f = (a, b, c)" by (cases f)
    from number_flags_result [OF Some [unfolded f]] assms(2,3) have "a" "b \<or> c" by auto
    with Some show ?thesis
      unfolding scanNumber_positive_token [OF tk False tk'] f
      by (simp add: scanNumber_check_int_float)
  qed
qed

lemma length_two_letters:
  assumes "distinct xs" "set xs \<subseteq> {p, q}" "p \<noteq> q"
  shows "int (length xs) = (if p \<in> set xs then 1 else 0) + (if q \<in> set xs then 1 else 0)"
proof (cases xs)
  case Nil
  then show ?thesis by simp
next
  case (Cons x ys)
  show ?thesis
  proof (cases ys)
    case Nil
    with Cons assms show ?thesis by auto
  next
    case (Cons y zs)
    with \<open>xs = x # ys\<close> assms have "zs = []"
      by (cases zs) auto
    with Cons \<open>xs = x # ys\<close> assms show ?thesis by auto
  qed
qed


text \<open>
  The checks after the loop on a token without a digit: \<open>rest\<close> is the part of the token
  that the loop has read and \<open>(a, b, c)\<close> are the flags it has returned.
\<close>

lemma scanNumber_check_no_digit:
  assumes tok: "tok \<noteq> []" "\<forall>x\<in>set tok. \<not> is_digit x"
    and rest: "tok = rest \<and> hd tok \<noteq> CHR ''-'' \<or> tok = CHR ''-'' # rest"
    and flags: "number_flags prev past rest False False False = Some (a, b, c)"
    and prev: "prev \<noteq> CHR ''e''" "prev \<noteq> CHR ''E''"
    and pf: "\<forall>s. (\<forall>x\<in>set s. is_digit x \<or> x \<in> set ''.eE+-'') \<and> ParseFloat ext s
               \<longrightarrow> (\<exists>x\<in>set s. is_digit x)"
  shows "scanNumber_check ext (pre @ tok @ post) (length pre) (length pre + length tok, a, b, c)
           \<in> {Err InvalidNumber, Err InvalidFloat}"
proof -
  from rest tok(2) have nd: "\<forall>x\<in>set rest. \<not> is_digit x" by auto
  from number_flags_result [OF flags]
  have a: "a = (CHR ''i'' \<in> set rest)" and b: "b = (CHR ''.'' \<in> set rest)"
    and c: "c = (CHR ''e'' \<in> set rest \<or> CHR ''E'' \<in> set rest)"
    by simp_all
  from rest have len: "int (length tok) = int (length rest) + (if hd tok = CHR ''-'' then 1 else 0)"
    by auto
  show ?thesis
  proof (cases c)
    case False
    with c have "CHR ''e'' \<notin> set rest" "CHR ''E'' \<notin> set rest" by simp_all
    from number_flags_no_digits [OF flags nd this prev]
    have "distinct rest" "set rest \<subseteq> {CHR ''i'', CHR ''.''}" by simp_all
    then have "int (length rest) = (if a then 1 else 0) + (if b then 1 else 0)"
      unfolding a b by (rule length_two_letters) simp
    with len have "int (length tok) - (if a then 1 else 0) - (if b then 1 else 0)
                - (if hd tok = CHR ''-'' then 1 else 0) = 0"
      by simp
    then show ?thesis
      unfolding scanNumber_check_token [OF tok(1)] by simp
  next
    case True
    show ?thesis
    proof (cases a)
      case True
      with \<open>c\<close> show ?thesis by (simp add: scanNumber_check_int_float)
    next
      case False
      with a have "CHR ''i'' \<notin> set rest" by simp
      with number_flags_alphabet [OF flags] nd
      have "\<forall>x\<in>set rest. is_digit x \<or> x \<in> set ''.eE+-''" by auto
      with rest have "\<forall>x\<in>set tok. is_digit x \<or> x \<in> set ''.eE+-''" by auto
      with pf tok(2) have "\<not> ParseFloat ext tok" by blast
      with \<open>c\<close> False show ?thesis
        unfolding scanNumber_check_token [OF tok(1)] by simp
    qed
  qed
qed

lemma scanNumber_no_digit:
  assumes "number_token pre tok post" "last pre \<noteq> CHR ''e''" "last pre \<noteq> CHR ''E''"
    and nd: "\<forall>x\<in>set tok. \<not> is_digit x"
    and pf: "\<forall>s. (\<forall>x\<in>set s. is_digit x \<or> x \<in> set ''.eE+-'') \<and> ParseFloat ext s
               \<longrightarrow> (\<exists>x\<in>set s. is_digit x)"
  shows "scanNumber ext (pre @ tok @ post) (length pre) \<in> {Err InvalidNumber, Err InvalidFloat}"
proof (cases "hd tok = CHR ''-''")
  case True
  with assms(1) obtain t where tok: "tok = CHR ''-'' # t"
    by (cases tok) (auto simp: number_token_def)
  from assms(1) tok have tk: "pre \<noteq> []" "\<forall>x\<in>set t. x \<noteq> CHR '','' \<and> x \<noteq> CHR '' ''"
    "post = [] \<or> hd post = CHR '','' \<or> hd post = CHR '' ''"
    by (auto simp: number_token_def)
  show ?thesis
  proof (cases "number_flags (CHR ''-'') True t False False False")
    case None
    then show ?thesis
      unfolding tok append_Cons scanNumber_negative_token [OF tk] by simp
  next
    case (Some f)
    obtain a b c where f: "f = (a, b, c)" by (cases f)
    have "scanNumber_check ext (pre @ tok @ post) (length pre) (length pre + length tok, a, b, c)
           \<in> {Err InvalidNumber, Err InvalidFloat}"
      using nd Some pf unfolding f tok
      by (intro scanNumber_check_no_digit [where rest = t and prev = "CHR ''-''" and past = True]) simp_all
    with Some show ?thesis
      unfolding tok append_Cons scanNumber_negative_token [OF tk] f by simp
  qed
next
  case False
  from assms(1) have tk: "pre \<noteq> []" "tok \<noteq> []"
    and tk': "\<forall>x\<in>set tok. x \<noteq> CHR '','' \<and> x \<noteq> CHR '' ''"
    "post = [] \<or> hd post = CHR '','' \<or> hd post = CHR '' ''"
    by (auto simp: number_token_def)
  show ?thesis
  proof (cases "number_flags (last pre) False tok False False False")
    case None
    then show ?thesis
      unfolding scanNumber_positive_token [OF tk False tk'] by simp
  next
    case (Some f)
    obtain a b c where f: "f = (a, b, c)" by (cases f)
    have "scanNumber_check ext (pre @ tok @ post) (length pre) (length pre + length tok, a, b, c)
           \<in> {Err InvalidNumber, Err InvalidFloat}"
      using tk(2) nd False Some assms(2,3) pf unfolding f
      by (intro scanNumber_check_no_digit [where rest = tok and prev = "last pre" and past = False]) simp_all
    with Some show ?thesis
      unfolding scanNumber_positive_token [OF tk False tk'] f by simp
  qed
qed


text \<open>
  The verdict of \<open>scanNumber\<close> on a token, computed from the token, the byte \<open>prev\<close> before it
  and whether the buffer ends behind it: \<open>None\<close> when the token is accepted, the error
  otherwise.
\<close>

definition token_check :: "externals \<Rightarrow> string \<Rightarrow> bool \<times> bool \<times> bool \<Rightarrow> error option" where
  "token_check ext tok f =
     (case f of (a, b, c) \<Rightarrow>
        if a \<and> (b \<or> c) then Some InvalidNumber
        else if int (length tok) - (if a then 1 else 0) - (if b then 1 else 0)
                  - (if hd tok = CHR ''-'' then 1 else 0) = 0 then Some InvalidNumber
        else if a then
          (if last tok \<noteq> CHR ''i'' then Some InvalidNumber
           else if (length (butlast tok) \<ge> maxInt64Digits \<or> length (butlast tok) \<ge> minInt64Digits)
                   \<and> \<not> ParseInt ext (butlast tok)
           then Some (UnparsableInteger (butlast tok))
           else None)
        else if (c \<or> length tok \<ge> maxFloat64Digits \<or> length tok \<ge> minFloat64Digits)
                \<and> \<not> ParseFloat ext tok
        then Some InvalidFloat
        else None)"

definition token_verdict :: "externals \<Rightarrow> char \<Rightarrow> string \<Rightarrow> bool \<Rightarrow> error option" where
  "token_verdict ext prev tok at_end =
     (if tok = ''-'' \<and> at_end then Some InvalidNumber
      else case (if hd tok = CHR ''-'' then number_flags (CHR ''-'') True (tl tok) False False False
                 else number_flags prev False tok False False False) of
             None \<Rightarrow> Some InvalidNumber
           | Some f \<Rightarrow> token_check ext tok f)"

lemma scanNumber_check_verdict:
  assumes "tok \<noteq> []"
  shows "scanNumber_check ext (pre @ tok @ post) (length pre) (length pre + length tok, f) =
     (case token_check ext tok f of Some e \<Rightarrow> Err e | None \<Rightarrow> Ok (length pre + length tok))"
proof -
  obtain a b c where f: "f = (a, b, c)" by (cases f)
  show ?thesis
    unfolding f scanNumber_check_token [OF assms] token_check_def prod.case
      if_distrib [where f = "case_option (Ok (length pre + length tok)) Err"] option.case
    by (rule refl)
qed

lemma scanNumber_in_buffer:
  assumes "number_token pre tok post"
  shows "scanNumber ext (pre @ tok @ post) (length pre) =
     (case token_verdict ext (last pre) tok (post = []) of
        Some e \<Rightarrow> Err e
      | None \<Rightarrow> Ok (length pre + length tok))"
proof (cases "hd tok = CHR ''-''")
  case True
  with assms obtain t where tok: "tok = CHR ''-'' # t"
    by (cases tok) (auto simp: number_token_def)
  from assms tok have tk: "pre \<noteq> []" "\<forall>x\<in>set t. x \<noteq> CHR '','' \<and> x \<noteq> CHR '' ''"
    "post = [] \<or> hd post = CHR '','' \<or> hd post = CHR '' ''"
    by (auto simp: number_token_def)
  have chk: "scanNumber_check ext (pre @ CHR ''-'' # t @ post) (length pre) (Suc (length pre + length t), f) =
     (case token_check ext (CHR ''-'' # t) f of
        Some e \<Rightarrow> Err e | None \<Rightarrow> Ok (Suc (length pre + length t)))" for f
    using scanNumber_check_verdict [of "CHR ''-'' # t" ext pre post f]
    by (simp cong: option.case_cong)
  show ?thesis
  proof (cases "t = [] \<and> post = []")
    case True
    then show ?thesis
      unfolding tok append_Cons scanNumber_negative_token [OF tk] by (simp add: token_verdict_def)
  next
    case False
    then show ?thesis
      unfolding tok append_Cons scanNumber_negative_token [OF tk] chk
      by (cases "number_flags (CHR ''-'') True t False False False")
         (auto simp: token_verdict_def cong: option.case_cong)
  qed
next
  case False
  from assms have tk: "pre \<noteq> []" "tok \<noteq> []"
    and tk': "\<forall>x\<in>set tok. x \<noteq> CHR '','' \<and> x \<noteq> CHR '' ''"
    "post = [] \<or> hd post = CHR '','' \<or> hd post = CHR '' ''"
    by (auto simp: number_token_def)
  from False tk(2) have ne: "tok \<noteq> ''-''" by auto
  show ?thesis
    unfolding scanNumber_positive_token [OF tk False tk'] scanNumber_check_verdict [OF tk(2)]
    using False ne
    by (cases "number_flags (last pre) False tok False False False")
       (simp_all add: token_verdict_def)
qed

lemmas number_eval =
  scanNumber_def scanNumber_loop.simps scanNumber_check_def at_def slice_def isNumeric_def
  maxInt64Digits_def minInt64Digits_def maxFloat64Digits_def minFloat64Digits_def Let_def

lemma scanNumber_accepts_alone:
  assumes "ParseFloat ext ''4.2e10''" "ParseFloat ext ''-4.2E-3''"
  shows "scanNumber ext ''42i'' 0 = Ok 3" "scanNumber ext ''-42'' 0 = Ok 3"
    "scanNumber ext ''4.2e10'' 0 = Ok 6" "scanNumber ext ''-4.2E-3'' 0 = Ok 7"
  using assms by (simp_all add: number_eval)

lemma scanNumber_rejects_alone:
  "scanNumber ext ''42.i'' 0 = Err InvalidNumber" "scanNumber ext ''4.2.1'' 0 = Err InvalidNumber"
  "scanNumber ext ''NaN'' 0 = Err InvalidNumber" "scanNumber ext ''-'' 0 = Err InvalidNumber"
  by (simp_all add: number_eval)

lemmas verdict_eval =
  token_verdict_def token_check_def number_flags.simps isNumeric_def
  maxInt64Digits_def minInt64Digits_def maxFloat64Digits_def minFloat64Digits_def

lemma token_verdict_accepts:
  assumes "ParseFloat ext ''4.2e10''" "ParseFloat ext ''-4.2E-3''"
  shows "token_verdict ext prev ''42i'' at_end = None" "token_verdict ext prev ''-42'' at_end = None"
    "token_verdict ext prev ''4.2e10'' at_end = None" "token_verdict ext prev ''-4.2E-3'' at_end = None"
  using assms by (simp_all add: verdict_eval)

lemma token_verdict_rejects:
  "token_verdict ext prev ''42.i'' at_end = Some InvalidNumber"
  "token_verdict ext prev ''4.2.1'' at_end = Some InvalidNumber"
  "token_verdict ext prev ''NaN'' at_end = Some InvalidNumber"
  "token_verdict ext prev ''-'' at_end = Some InvalidNumber"
  by (simp_all add: verdict_eval)


text \<open>
  C7: the numeric literal validator accepts the tokens \<open>42i\<close>, \<open>-42\<close>, \<open>4.2e10\<close> and
  \<open>-4.2E-3\<close> and rejects \<open>42.i\<close>, \<open>4.2.1\<close>, \<open>NaN\<close> and a bare \<open>-\<close>, both as a whole buffer
  and as a token inside a buffer; a literal that holds the integer marker \<open>i\<close> together
  with a decimal point or an exponent is invalid, and so is a literal without a digit.
  The float parser of the standard library is a parameter: it is assumed to accept
  \<open>4.2e10\<close> and \<open>-4.2E-3\<close> and to reject every string of digits, points, exponent marks and
  signs that has no digit.
\<close>

theorem scanNumber_literals:
  assumes "ParseFloat ext ''4.2e10''" "ParseFloat ext ''-4.2E-3''"
    and "\<forall>s. (\<forall>x\<in>set s. is_digit x \<or> x \<in> set ''.eE+-'') \<and> ParseFloat ext s
            \<longrightarrow> (\<exists>x\<in>set s. is_digit x)"
  shows "scanNumber ext ''42i'' 0 = Ok 3 \<and> scanNumber ext ''-42'' 0 = Ok 3
       \<and> scanNumber ext ''4.2e10'' 0 = Ok 6 \<and> scanNumber ext ''-4.2E-3'' 0 = Ok 7
       \<and> scanNumber ext ''42.i'' 0 = Err InvalidNumber \<and> scanNumber ext ''4.2.1'' 0 = Err InvalidNumber
       \<and> scanNumber ext ''NaN'' 0 = Err InvalidNumber \<and> scanNumber ext ''-'' 0 = Err InvalidNumber
       \<and> (\<forall>pre tok post. number_token pre tok post \<and> tok \<in> {''42i'', ''-42'', ''4.2e10'', ''-4.2E-3''}
             \<longrightarrow> scanNumber ext (pre @ tok @ post) (length pre) = Ok (length pre + length tok))
       \<and> (\<forall>pre tok post. number_token pre tok post \<and> tok \<in> {''42.i'', ''4.2.1'', ''NaN'', ''-''}
             \<longrightarrow> scanNumber ext (pre @ tok @ post) (length pre) = Err InvalidNumber)
       \<and> (\<forall>pre tok post. number_token pre tok post \<and> CHR ''i'' \<in> set tok
               \<and> (CHR ''.'' \<in> set tok \<or> CHR ''e'' \<in> set tok \<or> CHR ''E'' \<in> set tok)
             \<longrightarrow> scanNumber ext (pre @ tok @ post) (length pre) = Err InvalidNumber)
       \<and> (\<forall>pre tok post. number_token pre tok post \<and> last pre \<noteq> CHR ''e'' \<and> last pre \<noteq> CHR ''E''
               \<and> (\<forall>x\<in>set tok. \<not> is_digit x)
             \<longrightarrow> scanNumber ext (pre @ tok @ post) (length pre) \<in> {Err InvalidNumber, Err InvalidFloat})"
proof -
  have acc: "scanNumber ext (pre @ tok @ post) (length pre) = Ok (length pre + length tok)"
    if "number_token pre tok post \<and> tok \<in> {''42i'', ''-42'', ''4.2e10'', ''-4.2E-3''}" for pre tok post
  proof -
    from that have nt: "number_token pre tok post" ..
    from that have "token_verdict ext (last pre) tok (post = []) = None"
      using token_verdict_accepts [OF assms(1,2), of "last pre" "post = []"] by auto
    then show ?thesis unfolding scanNumber_in_buffer [OF nt] by simp
  qed
  have rej: "scanNumber ext (pre @ tok @ post) (length pre) = Err InvalidNumber"
    if "number_token pre tok post \<and> tok \<in> {''42.i'', ''4.2.1'', ''NaN'', ''-''}" for pre tok post
  proof -
    from that have nt: "number_token pre tok post" ..
    from that have "token_verdict ext (last pre) tok (post = []) = Some InvalidNumber"
      using token_verdict_rejects [of ext "last pre" "post = []"] by auto
    then show ?thesis unfolding scanNumber_in_buffer [OF nt] by simp
  qed
  have int: "scanNumber ext (pre @ tok @ post) (length pre) = Err InvalidNumber"
    if "number_token pre tok post \<and> CHR ''i'' \<in> set tok
          \<and> (CHR ''.'' \<in> set tok \<or> CHR ''e'' \<in> set tok \<or> CHR ''E'' \<in> set tok)" for pre tok post
    using that by (intro scanNumber_int_with_point_or_exponent) simp_all
  have nd: "scanNumber ext (pre @ tok @ post) (length pre) \<in> {Err InvalidNumber, Err InvalidFloat}"
    if "number_token pre tok post \<and> last pre \<noteq> CHR ''e'' \<and> last pre \<noteq> CHR ''E''
          \<and> (\<forall>x\<in>set tok. \<not> is_digit x)" for pre tok post
    using that assms(3) by (intro scanNumber_no_digit) simp_all
  note alone = scanNumber_accepts_alone [OF assms(1,2)] scanNumber_rejects_alone [of ext]
  show ?thesis
    apply (intro conjI allI impI)
               apply (rule alone)+
       apply (erule acc)
      apply (erule rej)
     apply (erule int)
    apply (erule nd)
    done
qed

lemma ParseFloat_64_examples:
  "ParseFloat_64 ''4.2e10''" "ParseFloat_64 ''-4.2E-3''"
  by (simp_all add: ParseFloat_64_def strip_sign_def is_digit_def decimal_value_def
        float64_in_range_def Let_def)

lemma strip_sign_subset: "set (snd (strip_sign s)) \<subseteq> set s"
  by (cases s) (auto simp: strip_sign_def)

lemma ParseFloat_64_has_digit:
  assumes "ParseFloat_64 s"
  shows "\<exists>x\<in>set s. is_digit x"
proof -
  define body where "body = snd (strip_sign s)"
  define r1 where "r1 = dropWhile is_digit body"
  define fp where "fp = (case r1 of [] \<Rightarrow> [] | c # r \<Rightarrow> if c = CHR ''.'' then takeWhile is_digit r else [])"
  from assms have ne: "takeWhile is_digit body @ fp \<noteq> []"
    by (simp add: ParseFloat_64_def Let_def body_def r1_def fp_def)
  have "set fp \<subseteq> set r1 \<and> (\<forall>x\<in>set fp. is_digit x)"
    unfolding fp_def by (cases r1) (auto dest: set_takeWhileD)
  moreover have "set r1 \<subseteq> set body"
    unfolding r1_def by (auto dest: set_dropWhileD)
  ultimately have "\<forall>x\<in>set (takeWhile is_digit body @ fp). x \<in> set body \<and> is_digit x"
    by (auto dest: set_takeWhileD)
  with ne obtain x where "x \<in> set body" "is_digit x"
    by (cases "takeWhile is_digit body @ fp") auto
  with strip_sign_subset [of s] show ?thesis
    unfolding body_def by blast
qed

theorem scanNumber_literals_witness:
  "ParseFloat go_strconv ''4.2e10'' \<and> ParseFloat go_strconv ''-4.2E-3''
   \<and> scanNumber go_strconv ''42i'' 0 = Ok 3
   \<and> scanNumber go_strconv ''-4.2E-3'' 0 = Ok 7
   \<and> scanNumber go_strconv ''NaN'' 0 = Err InvalidNumber
   \<and> scanNumber go_strconv (''v='' @ ''4.2e10'' @ '',w=1'') 2 = Ok 8
   \<and> scanNumber go_strconv (''v='' @ ''42.i'' @ '' 10'') 2 = Err InvalidNumber
   \<and> scanNumber go_strconv (''v='' @ ''1.5e3i'' @ []) 2 = Err InvalidNumber
   \<and> scanNumber go_strconv (''v='' @ ''-.'' @ []) 2 \<in> {Err InvalidNumber, Err InvalidFloat}"
proof -
  have pf: "ParseFloat go_strconv ''4.2e10''" "ParseFloat go_strconv ''-4.2E-3''"
    by (simp_all add: go_strconv_def ParseFloat_64_examples)
  have dg: "\<forall>s. (\<forall>x\<in>set s. is_digit x \<or> x \<in> set ''.eE+-'') \<and> ParseFloat go_strconv s
            \<longrightarrow> (\<exists>x\<in>set s. is_digit x)"
    by (simp add: go_strconv_def ParseFloat_64_has_digit)
  have nt: "number_token ''v='' ''4.2e10'' '',w=1''" "number_token ''v='' ''42.i'' '' 10''"
    "number_token ''v='' ''1.5e3i'' []" "number_token ''v='' ''-.'' []"
    by (simp_all add: number_token_def)
  have nd: "\<forall>x\<in>set ''-.''. \<not> is_digit x" by (simp add: is_digit_def)
  note L = scanNumber_literals [OF pf dg]
  from L have a1: "scanNumber go_strconv ''42i'' 0 = Ok 3"
    by simp
  from L have a2: "scanNumber go_strconv ''-4.2E-3'' 0 = Ok 7"
    by simp
  from L have a3: "scanNumber go_strconv ''NaN'' 0 = Err InvalidNumber"
    by simp
  note L8 = L [THEN conjunct2, THEN conjunct2, THEN conjunct2, THEN conjunct2,
                THEN conjunct2, THEN conjunct2, THEN conjunct2, THEN conjunct2]
  note acc = L8 [THEN conjunct1]
  note rej = L8 [THEN conjunct2, THEN conjunct1]
  note int = L8 [THEN conjunct2, THEN conjunct2, THEN conjunct1]
  note dig = L8 [THEN conjunct2, THEN conjunct2, THEN conjunct2]
  from acc [rule_format, of "''v=''" "''4.2e10''" "'',w=1''"] nt(1)
  have a: "scanNumber go_strconv (''v='' @ ''4.2e10'' @ '',w=1'') 2 = Ok 8"
    by (simp del: append.simps add: eval_nat_numeral)
  from rej [rule_format, of "''v=''" "''42.i''" "'' 10''"] nt(2)
  have b: "scanNumber go_strconv (''v='' @ ''42.i'' @ '' 10'') 2 = Err InvalidNumber"
    by (simp del: append.simps add: eval_nat_numeral)
  from int [rule_format, of "''v=''" "''1.5e3i''" "[]"] nt(3)
  have c: "scanNumber go_strconv (''v='' @ ''1.5e3i'' @ []) 2 = Err InvalidNumber"
    by (simp del: append.simps add: eval_nat_numeral)
  from dig [rule_format, of "''v=''" "''-.''" "[]"] nt(4) nd
  have d: "scanNumber go_strconv (''v='' @ ''-.'' @ []) 2 \<in> {Err InvalidNumber, Err InvalidFloat}"
    by (simp del: append.simps add: eval_nat_numeral)
  from pf a1 a2 a3 a b c d show ?thesis
    by (simp del: append.simps add: eval_nat_numeral)
qed

section \<open>Promotion and emission\<close>

text \<open>The names in the order supplied, each at its first occurrence only.\<close>

definition first_occurrences :: "'a list \<Rightarrow> 'a list" where
  "first_occurrences xs = rev (remdups (rev xs))"

text \<open>The tag assignment that a promoted field adds to the key; empty when the field is absent.\<close>

definition promoted_tag :: "fieldmap \<Rightarrow> string \<Rightarrow> string" where
  "promoted_tag flds name =
     (case map_of flds name of
        None \<Rightarrow> []
      | Some v \<Rightarrow> '','' @ name @ ''='' @ Trim v [dquote, squote])"

lemma remdups_snoc: "remdups (xs @ [x]) = filter (\<lambda>y. y \<noteq> x) (remdups xs) @ [x]"
  by (induction xs) auto

lemma first_occurrences_Cons:
  "first_occurrences (x # xs) = x # filter (\<lambda>y. y \<noteq> x) (first_occurrences xs)"
  by (simp add: first_occurrences_def remdups_snoc rev_filter)

lemma first_occurrences_Nil [simp]: "first_occurrences [] = []"
  by (simp add: first_occurrences_def)

lemma promoted_tag_delete:
  "promoted_tag (AList.delete n flds) m = (if m = n then [] else promoted_tag flds m)"
  by (simp add: promoted_tag_def delete_conv')

lemma concat_promoted_delete:
  "concat (map (promoted_tag (AList.delete n flds)) ms)
     = concat (map (promoted_tag flds) (filter (\<lambda>y. y \<noteq> n) ms))"
  by (induction ms) (simp_all add: promoted_tag_delete)

lemma concat_promoted_absent:
  "map_of flds n = None \<Longrightarrow>
   concat (map (promoted_tag flds) (filter (\<lambda>y. y \<noteq> n) ms)) = concat (map (promoted_tag flds) ms)"
  by (induction ms) (simp_all add: promoted_tag_def)

lemma filter_delete:
  "filter (\<lambda>(k, v). k \<notin> set ns) (AList.delete n flds) = filter (\<lambda>(k, v). k \<noteq> n \<and> k \<notin> set ns) flds"
  by (induction flds) auto

lemma filter_absent:
  "map_of flds n = None \<Longrightarrow>
   filter (\<lambda>(k, v). k \<noteq> n \<and> k \<notin> set ns) flds = filter (\<lambda>(k, v). k \<notin> set ns) flds"
  by (induction flds) (auto split: if_splits)

lemma promote_eq:
  "promote names line flds =
     (line @ concat (map (promoted_tag flds) (first_occurrences names)),
      filter (\<lambda>(k, v). k \<notin> set names) flds)"
proof (induction names arbitrary: line flds)
  case Nil
  then show ?case by simp
next
  case (Cons n ns)
  show ?case
  proof (cases "map_of flds n")
    case None
    then show ?thesis
      by (simp add: Cons.IH first_occurrences_Cons promoted_tag_def concat_promoted_absent [OF None, unfolded promoted_tag_def]
            filter_absent)
  next
    case (Some v)
    then show ?thesis
      by (simp add: Cons.IH first_occurrences_Cons concat_promoted_delete filter_delete)
         (simp add: promoted_tag_def)
  qed
qed

lemma Trim_decompose:
  "\<exists>pre post. s = pre @ Trim s cs @ post \<and> set pre \<subseteq> set cs \<and> set post \<subseteq> set cs
     \<and> (Trim s cs \<noteq> [] \<longrightarrow> hd (Trim s cs) \<notin> set cs \<and> last (Trim s cs) \<notin> set cs)"
proof -
  let ?P = "\<lambda>c. c \<in> set cs"
  let ?pre = "takeWhile ?P s"
  let ?mid = "dropWhile ?P s"
  let ?post = "rev (takeWhile ?P (rev ?mid))"
  have t: "Trim s cs = rev (dropWhile ?P (rev ?mid))" by (simp add: Trim_def)
  have "rev (takeWhile ?P (rev ?mid) @ dropWhile ?P (rev ?mid)) = ?mid"
    by (simp only: takeWhile_dropWhile_id rev_rev_ident)
  then have mid: "?mid = Trim s cs @ ?post"
    unfolding t by (simp only: rev_append)
  have s: "s = ?pre @ Trim s cs @ ?post"
    using mid takeWhile_dropWhile_id [of ?P s] by simp
  have pre: "set ?pre \<subseteq> set cs" by (auto dest: set_takeWhileD)
  have post: "set ?post \<subseteq> set cs" by (auto dest: set_takeWhileD)
  have ends: "hd (Trim s cs) \<notin> set cs \<and> last (Trim s cs) \<notin> set cs" if ne: "Trim s cs \<noteq> []"
  proof
    from ne mid have "hd (Trim s cs) = hd ?mid" by (metis hd_append2)
    moreover from ne mid have "?mid \<noteq> []" by (metis append_is_Nil_conv)
    ultimately show "hd (Trim s cs) \<notin> set cs" using hd_dropWhile [of ?P s] by simp
    from ne have "dropWhile ?P (rev ?mid) \<noteq> []" unfolding t by simp
    then have "\<not> ?P (hd (dropWhile ?P (rev ?mid)))" by (rule hd_dropWhile)
    moreover from ne have "last (Trim s cs) = hd (dropWhile ?P (rev ?mid))"
      unfolding t by (simp add: last_rev)
    ultimately show "last (Trim s cs) \<notin> set cs" by simp
  qed
  from s pre post ends show ?thesis by blast
qed

lemma emitGroup_eq:
  "emitGroup names key ts flds =
     map (\<lambda>(k, v). writeLine
            (key @ concat (map (promoted_tag flds) (first_occurrences names)) @ '' '' @ k @ ''='' @ v
               @ (if ts \<noteq> [] then '' '' @ ts else [])) True)
         (filter (\<lambda>(k, v). k \<notin> set names) flds)"
  by (simp add: emitGroup_def promote_eq Let_def)

text \<open>
  C4: the emission loop runs over every group of the table, key by key and timestamp by
  timestamp.  For each group the promotable names are taken in the order supplied; each
  one that is present in the field map of the group adds \<open>,name=value\<close> to the key, with
  the value stripped of the quote characters at its two ends and otherwise unchanged, and
  leaves the map; every remaining field is written as a line of its own: the augmented
  key, a space, the field assignment and, behind a space, the timestamp, closed by a
  newline unless it ends with one.
\<close>

theorem emitEntries_promotes_then_emits:
  "emitEntries names entries =
     concat (map (\<lambda>(key, rows). concat (map (\<lambda>(ts, flds).
       map (\<lambda>(k, v).
              key @ concat (map (promoted_tag flds) (first_occurrences names)) @ '' '' @ k @ ''='' @ v
                @ (if ts \<noteq> [] then '' '' @ ts else [])
                @ (if last (''='' @ v @ (if ts \<noteq> [] then '' '' @ ts else [])) = newline then []
                   else [newline]))
           (filter (\<lambda>(k, v). k \<notin> set names) flds)) rows)) entries)
   \<and> (distinct names \<longrightarrow> first_occurrences names = names)
   \<and> (\<forall>flds name. promoted_tag flds name =
         (case map_of flds name of
            None \<Rightarrow> []
          | Some v \<Rightarrow> '','' @ name @ ''='' @ Trim v [dquote, squote]))
   \<and> (\<forall>v. \<exists>pre post. v = pre @ Trim v [dquote, squote] @ post
               \<and> set pre \<subseteq> {dquote, squote} \<and> set post \<subseteq> {dquote, squote}
               \<and> (Trim v [dquote, squote] \<noteq> [] \<longrightarrow>
                     hd (Trim v [dquote, squote]) \<notin> {dquote, squote}
                     \<and> last (Trim v [dquote, squote]) \<notin> {dquote, squote}))"
proof (intro conjI)
  have line: "writeLine (a @ b @ CHR '' '' # k @ CHR ''='' # v @ s) True =
                a @ b @ CHR '' '' # k @ CHR ''='' # v @
                  s @ (if last (CHR ''='' # v @ s) = newline then [] else [newline])"
    for a b k v s
    by (simp add: writeLine_def)
  show "emitEntries names entries =
     concat (map (\<lambda>(key, rows). concat (map (\<lambda>(ts, flds).
       map (\<lambda>(k, v).
              key @ concat (map (promoted_tag flds) (first_occurrences names)) @ '' '' @ k @ ''='' @ v
                @ (if ts \<noteq> [] then '' '' @ ts else [])
                @ (if last (''='' @ v @ (if ts \<noteq> [] then '' '' @ ts else [])) = newline then []
                   else [newline]))
           (filter (\<lambda>(k, v). k \<notin> set names) flds)) rows)) entries)"
    unfolding emitEntries_def emitGroup_eq by (simp add: line cong: if_cong)
next
  show "distinct names \<longrightarrow> first_occurrences names = names"
  proof
    assume "distinct names"
    then have r: "remdups (rev names) = rev names"
      by (intro distinct_remdups_id) simp
    show "first_occurrences names = names"
      unfolding first_occurrences_def r by (rule rev_rev_ident)
  qed
next
  show "\<forall>flds name. promoted_tag flds name =
         (case map_of flds name of
            None \<Rightarrow> []
          | Some v \<Rightarrow> '','' @ name @ ''='' @ Trim v [dquote, squote])"
    by (simp add: promoted_tag_def)
next
  show "\<forall>v. \<exists>pre post. v = pre @ Trim v [dquote, squote] @ post
               \<and> set pre \<subseteq> {dquote, squote} \<and> set post \<subseteq> {dquote, squote}
               \<and> (Trim v [dquote, squote] \<noteq> [] \<longrightarrow>
                     hd (Trim v [dquote, squote]) \<notin> {dquote, squote}
                     \<and> last (Trim v [dquote, squote]) \<notin> {dquote, squote})"
    using Trim_decompose [of _ "[dquote, squote]"] by simp
qed

text \<open>
  The table of the test of the repository: two keys, the first with two timestamps; the
  field \<open>idd\<close> is promoted where it is present, the name \<open>non-existant\<close> never is.
\<close>

theorem emitEntries_promotes_then_emits_witness:
  "Trim ([dquote] @ ''bar'' @ [dquote]) [dquote, squote] = ''bar''
   \<and> emitEntries [''idd'', ''non-existant'']
       [(''test,id=foo'',
           [(''1511629912071663075'',
               [(''string'', [dquote] @ ''foo'' @ [dquote]), (''idd'', [dquote] @ ''bar'' @ [dquote]),
                (''int'', ''42'')]),
            (''1511629912071663076'',
               [(''idd'', [dquote] @ ''bar'' @ [dquote]), (''int'', ''43'')])]),
        (''test,id=foo,idd=already'',
           [(''1511629912071663075'', [(''string'', [dquote] @ ''foo'' @ [dquote])])])]
     = [''test,id=foo,idd=bar string='' @ [dquote] @ ''foo'' @ [dquote] @ '' 1511629912071663075'' @ [newline],
        ''test,id=foo,idd=bar int=42 1511629912071663075'' @ [newline],
        ''test,id=foo,idd=bar int=43 1511629912071663076'' @ [newline],
        ''test,id=foo,idd=already string='' @ [dquote] @ ''foo'' @ [dquote] @ '' 1511629912071663075'' @ [newline]]"
  using emitEntries_promotes_then_emits [of "[''idd'', ''non-existant'']"
      "[(''test,id=foo'',
           [(''1511629912071663075'',
               [(''string'', [dquote] @ ''foo'' @ [dquote]), (''idd'', [dquote] @ ''bar'' @ [dquote]),
                (''int'', ''42'')]),
            (''1511629912071663076'',
               [(''idd'', [dquote] @ ''bar'' @ [dquote]), (''int'', ''43'')])]),
        (''test,id=foo,idd=already'',
           [(''1511629912071663075'', [(''string'', [dquote] @ ''foo'' @ [dquote])])])]"]
  by (simp add: first_occurrences_def Trim_def)

section \<open>Merging in the data loop\<close>

text \<open>The field map of the group of a key and a timestamp, when the table has one.\<close>

definition group :: "entries \<Rightarrow> string \<Rightarrow> string \<Rightarrow> fieldmap option" where
  "group entries key timestamp =
     (case map_of entries key of None \<Rightarrow> None | Some rows \<Rightarrow> map_of rows timestamp)"

lemma group_addPoint:
  "group (addPoint entries key flds timestamp) key' timestamp' =
     (if key' = key \<and> timestamp' = timestamp then
        Some (fold (\<lambda>(k, v). AList.update k v) flds
                (case group entries key timestamp of None \<Rightarrow> [] | Some row \<Rightarrow> row))
      else group entries key' timestamp')"
  by (auto simp: group_def addPoint_def Let_def update_conv' split: option.splits)

lemma map_of_fold_update:
  "distinct (map fst flds) \<Longrightarrow>
   map_of (fold (\<lambda>(k, v). AList.update k v) flds row) = map_of row ++ map_of flds"
proof (induction flds arbitrary: row)
  case Nil
  then show ?case by simp
next
  case (Cons p flds)
  obtain k v where p: "p = (k, v)" by (cases p)
  from Cons.prems p have k: "map_of flds k = None" and d: "distinct (map fst flds)"
    by (auto simp: map_of_eq_None_iff)
  have "map_of (fold (\<lambda>(k, v). AList.update k v) (p # flds) row)
          = (map_of row)(k \<mapsto> v) ++ map_of flds"
    unfolding p fold_Cons comp_apply prod.case Cons.IH [OF d] update_conv' ..
  also have "\<dots> = map_of row ++ map_of (p # flds)"
    using k by (auto simp: p fun_eq_iff map_add_def split: option.splits)
  finally show ?case .
qed

lemma distinct_fold_update:
  "distinct (map fst row) \<Longrightarrow> distinct (map fst (fold (\<lambda>(k, v). AList.update k v) flds row))"
  by (induction flds arbitrary: row) (auto simp: distinct_update)

lemma parseMap_parts_distinct:
  "parseMap_parts ps m = Ok m' \<Longrightarrow> distinct (map fst m) \<Longrightarrow> distinct (map fst m')"
proof (induction ps arbitrary: m)
  case Nil
  then show ?case by simp
next
  case (Cons p ps)
  from Cons.prems(1) obtain k v where "parseMap_part p 0 = Ok (k, v)"
    and "parseMap_parts ps (AList.update k v m) = Ok m'"
    by (cases "parseMap_part p 0") auto
  with Cons.IH [of "AList.update k v m"] Cons.prems(2) show ?case
    by (simp add: distinct_update)
qed

lemma parseLine_distinct_fields:
  "parseLine ext l = Ok (key, flds, ts) \<Longrightarrow> distinct (map fst flds)"
  unfolding parseLine_Ok_iff parseMap_def by (auto dest: parseMap_parts_distinct)

text \<open>
  A table is well formed when no key, no timestamp of a key and no field name of a group
  is listed twice; the empty table is, and \<open>addPoint\<close> keeps it so.
\<close>

definition table_ok :: "entries \<Rightarrow> bool" where
  "table_ok entries \<longleftrightarrow>
     distinct (map fst entries)
     \<and> (\<forall>(key, rows)\<in>set entries. distinct (map fst rows)
           \<and> (\<forall>(ts, row)\<in>set rows. distinct (map fst row)))"

lemma set_update_subset: "set (AList.update k v al) \<subseteq> insert (k, v) (set al)"
  by (induction al) auto

lemma table_ok_addPoint:
  assumes "table_ok entries"
  shows "table_ok (addPoint entries key flds ts)"
proof -
  let ?rows = "case map_of entries key of None \<Rightarrow> [] | Some rows \<Rightarrow> rows"
  let ?row = "case map_of ?rows ts of None \<Rightarrow> [] | Some row \<Rightarrow> row"
  let ?row' = "fold (\<lambda>(k, v). AList.update k v) flds ?row"
  let ?rows' = "AList.update ts ?row' ?rows"
  have rows: "distinct (map fst ?rows) \<and> (\<forall>(ts, row)\<in>set ?rows. distinct (map fst row))"
  proof (cases "map_of entries key")
    case None
    then show ?thesis by simp
  next
    case (Some rows)
    then have "(key, rows) \<in> set entries" by (rule map_of_SomeD)
    with assms Some show ?thesis by (auto simp: table_ok_def)
  qed
  have row: "distinct (map fst ?row)"
  proof (cases "map_of ?rows ts")
    case None
    then show ?thesis by simp
  next
    case (Some row)
    then have "(ts, row) \<in> set ?rows" by (rule map_of_SomeD)
    with rows Some show ?thesis by auto
  qed
  then have row': "distinct (map fst ?row')" by (rule distinct_fold_update)
  have rows': "distinct (map fst ?rows') \<and> (\<forall>(ts, row)\<in>set ?rows'. distinct (map fst row))"
    using rows row' set_update_subset [of ts ?row' ?rows] by (auto simp: distinct_update)
  have "set (AList.update key ?rows' entries) \<subseteq> insert (key, ?rows') (set entries)"
    by (rule set_update_subset)
  with assms rows' have "\<forall>(k, rs)\<in>set (AList.update key ?rows' entries).
       distinct (map fst rs) \<and> (\<forall>(ts, row)\<in>set rs. distinct (map fst row))"
    unfolding table_ok_def by blast
  moreover from assms have "distinct (map fst (AList.update key ?rows' entries))"
    by (simp add: table_ok_def distinct_update)
  ultimately show ?thesis
    unfolding table_ok_def addPoint_def Let_def by simp
qed

lemma table_ok_group:
  assumes "table_ok entries" "group entries key ts = Some row"
  shows "distinct (map fst row)
         \<and> (\<exists>rows. map_of entries key = Some rows \<and> distinct (map fst rows) \<and> map_of rows ts = Some row)"
proof -
  from assms(2) obtain rows where r: "map_of entries key = Some rows" "map_of rows ts = Some row"
    by (auto simp: group_def split: option.splits)
  then have "(key, rows) \<in> set entries" "(ts, row) \<in> set rows" by (auto dest: map_of_SomeD)
  with assms(1) r show ?thesis by (auto simp: table_ok_def)
qed

text \<open>The fields of a group as a map; the empty map when there is no such group.\<close>

definition fields_of :: "entries \<Rightarrow> string \<Rightarrow> string \<Rightarrow> (string \<rightharpoonup> string)" where
  "fields_of entries key ts = (case group entries key ts of None \<Rightarrow> Map.empty | Some row \<Rightarrow> map_of row)"

lemma fields_of_addPoint:
  assumes "distinct (map fst flds)"
  shows "fields_of (addPoint entries key flds ts) key' ts' =
     (if key' = key \<and> ts' = ts then fields_of entries key ts ++ map_of flds
      else fields_of entries key' ts')"
  unfolding fields_of_def group_addPoint
  by (simp add: map_of_fold_update [OF assms] split: option.splits)

text \<open>A line of the data section that parses to a point of another key or timestamp.\<close>

definition other_point :: "externals \<Rightarrow> string \<Rightarrow> string \<Rightarrow> string \<Rightarrow> bool" where
  "other_point ext key ts l \<longleftrightarrow>
     \<not> HasPrefix l stopLine
     \<and> (\<exists>k f t. parseLine ext l = Ok (k, f, t) \<and> \<not> (k = key \<and> t = ts))"

lemma readData_other_points:
  assumes "\<forall>l\<in>set ls. other_point ext key ts l" "table_ok e"
  shows "\<exists>e'. (\<forall>rest. readData ext (ls @ rest) e = readData ext rest e')
            \<and> fields_of e' key ts = fields_of e key ts \<and> table_ok e'
            \<and> (group e key ts \<noteq> None \<longrightarrow> group e' key ts \<noteq> None)"
  using assms
proof (induction ls arbitrary: e)
  case Nil
  then show ?case by auto
next
  case (Cons l ls)
  from Cons.prems(1) obtain k f t where np: "\<not> HasPrefix l stopLine"
    and p: "parseLine ext l = Ok (k, f, t)" and ne: "\<not> (k = key \<and> t = ts)"
    by (auto simp: other_point_def)
  let ?e = "addPoint e k f t"
  from Cons.prems(2) have rd: "table_ok ?e" by (rule table_ok_addPoint)
  from Cons.prems(1) have "\<forall>l\<in>set ls. other_point ext key ts l" by simp
  from Cons.IH [OF this rd] obtain e' where
    e': "\<forall>rest. readData ext (ls @ rest) ?e = readData ext rest e'"
      "fields_of e' key ts = fields_of ?e key ts" "table_ok e'"
      "group ?e key ts \<noteq> None \<longrightarrow> group e' key ts \<noteq> None"
    by blast
  from ne have same: "fields_of ?e key ts = fields_of e key ts" "group ?e key ts = group e key ts"
    using fields_of_addPoint [OF parseLine_distinct_fields [OF p], of e k t key ts]
    by (auto simp: group_addPoint)
  have "\<forall>rest. readData ext ((l # ls) @ rest) e = readData ext rest e'"
    using np p e'(1) by simp
  with e' same show ?case by auto
qed

text \<open>
  C3: let two lines of the data section parse to the same canonical key and the same
  timestamp, with field maps \<open>f1\<close> for the earlier and \<open>f2\<close> for the later line, and let every
  other line before the stop line parse to a point of another key or timestamp.  Then the
  data loop ends with a table that has one group for that key and timestamp; its field
  names are those of \<open>f1\<close> and \<open>f2\<close> together, a name of the later line carries the later
  line's value, and a name absent from the later line keeps the value of the earlier one.
\<close>

theorem readData_merges_same_key_and_timestamp:
  assumes "\<not> HasPrefix l1 stopLine" "parseLine ext l1 = Ok (key, f1, ts)"
    and "\<not> HasPrefix l2 stopLine" "parseLine ext l2 = Ok (key, f2, ts)"
    and "\<forall>l\<in>set (before @ between @ after). other_point ext key ts l"
    and "HasPrefix stop stopLine"
  shows "\<exists>entries rows row.
           readData ext (before @ [l1] @ between @ [l2] @ after @ stop # footer) []
             = Ok (entries, True, footer)
           \<and> distinct (map fst entries) \<and> map_of entries key = Some rows
           \<and> distinct (map fst rows) \<and> map_of rows ts = Some row
           \<and> distinct (map fst row)
           \<and> map_of row = map_of f1 ++ map_of f2
           \<and> dom (map_of row) = dom (map_of f1) \<union> dom (map_of f2)
           \<and> (\<forall>n v. map_of f2 n = Some v \<longrightarrow> map_of row n = Some v)
           \<and> (\<forall>n. map_of f2 n = None \<longrightarrow> map_of row n = map_of f1 n)"
proof -
  from assms(5) have o: "\<forall>l\<in>set before. other_point ext key ts l"
    "\<forall>l\<in>set between. other_point ext key ts l" "\<forall>l\<in>set after. other_point ext key ts l"
    by auto
  have ok0: "table_ok []" by (simp add: table_ok_def)
  from readData_other_points [OF o(1) ok0] obtain e1 where
    e1: "\<forall>rest. readData ext (before @ rest) [] = readData ext rest e1"
      "fields_of e1 key ts = fields_of [] key ts" "table_ok e1"
    by blast
  let ?e2 = "addPoint e1 key f1 ts"
  have ok2: "table_ok ?e2" using e1(3) by (rule table_ok_addPoint)
  have f2: "fields_of ?e2 key ts = map_of f1"
    using fields_of_addPoint [OF parseLine_distinct_fields [OF assms(2)], of e1 key ts key ts] e1(2)
    by (simp add: fields_of_def group_def)
  from readData_other_points [OF o(2) ok2] obtain e3 where
    e3: "\<forall>rest. readData ext (between @ rest) ?e2 = readData ext rest e3"
      "fields_of e3 key ts = fields_of ?e2 key ts" "table_ok e3"
    by blast
  let ?e4 = "addPoint e3 key f2 ts"
  have ok4: "table_ok ?e4" using e3(3) by (rule table_ok_addPoint)
  have f4: "fields_of ?e4 key ts = map_of f1 ++ map_of f2"
    using fields_of_addPoint [OF parseLine_distinct_fields [OF assms(4)], of e3 key ts key ts] e3(2) f2
    by simp
  have g4: "group ?e4 key ts \<noteq> None" by (simp add: group_addPoint)
  from readData_other_points [OF o(3) ok4] obtain e5 where
    e5: "\<forall>rest. readData ext (after @ rest) ?e4 = readData ext rest e5"
      "fields_of e5 key ts = fields_of ?e4 key ts" "table_ok e5"
      "group ?e4 key ts \<noteq> None \<longrightarrow> group e5 key ts \<noteq> None"
    by blast
  from e5(4) g4 obtain row where row: "group e5 key ts = Some row" by auto
  with e5(2) f4 have m: "map_of row = map_of f1 ++ map_of f2" by (simp add: fields_of_def)
  from table_ok_group [OF e5(3) row] obtain rows where
    rows: "distinct (map fst row)" "map_of e5 key = Some rows" "distinct (map fst rows)"
      "map_of rows ts = Some row"
    by blast
  have "readData ext (before @ [l1] @ between @ [l2] @ after @ stop # footer) []
          = readData ext ([l1] @ between @ [l2] @ after @ stop # footer) e1"
    using e1(1) by blast
  also have "\<dots> = readData ext (between @ [l2] @ after @ stop # footer) ?e2"
    using assms(1,2) by simp
  also have "\<dots> = readData ext ([l2] @ after @ stop # footer) e3"
    using e3(1) by blast
  also have "\<dots> = readData ext (after @ stop # footer) ?e4"
    using assms(3,4) by simp
  also have "\<dots> = readData ext (stop # footer) e5"
    using e5(1) by blast
  also have "\<dots> = Ok (e5, True, footer)"
    using assms(6) by simp
  finally have rd: "readData ext (before @ [l1] @ between @ [l2] @ after @ stop # footer) []
          = Ok (e5, True, footer)" .
  from e5(3) have d: "distinct (map fst e5)" by (simp add: table_ok_def)
  have dom: "dom (map_of row) = dom (map_of f1) \<union> dom (map_of f2)"
    unfolding m by auto
  have later: "\<forall>n v. map_of f2 n = Some v \<longrightarrow> map_of row n = Some v"
    unfolding m by (simp add: map_add_Some_iff)
  have earlier: "\<forall>n. map_of f2 n = None \<longrightarrow> map_of row n = map_of f1 n"
    unfolding m by (simp add: map_add_def)
  from rd d rows m dom later earlier show ?thesis by blast
qed

text \<open>Three lines of one key; the first and the third share the timestamp.\<close>

lemma parse_examples:
  "parseLine go_strconv ''m,t=a x=1,y=2 5'' = Ok (''m,t=a'', [(''x'', ''1''), (''y'', ''2'')], ''5'')"
  "parseLine go_strconv ''m,t=a x=9 6'' = Ok (''m,t=a'', [(''x'', ''9'')], ''6'')"
  "parseLine go_strconv ''m,t=a y=3,z=4 5'' = Ok (''m,t=a'', [(''y'', ''3''), (''z'', ''4'')], ''5'')"
  by (simp_all add: parseLine_def key_eval fields_eval map_eval go_strconv_def)

theorem readData_merges_same_key_and_timestamp_witness:
  "parseLine go_strconv ''m,t=a x=1,y=2 5'' = Ok (''m,t=a'', [(''x'', ''1''), (''y'', ''2'')], ''5'')
   \<and> parseLine go_strconv ''m,t=a y=3,z=4 5'' = Ok (''m,t=a'', [(''y'', ''3''), (''z'', ''4'')], ''5'')
   \<and> other_point go_strconv ''m,t=a'' ''5'' ''m,t=a x=9 6''
   \<and> readData go_strconv
         [''m,t=a x=1,y=2 5'', ''m,t=a x=9 6'', ''m,t=a y=3,z=4 5'', ''# writing wal data'', ''foot'']
         []
       = Ok ([(''m,t=a'', [(''5'', [(''x'', ''1''), (''y'', ''3''), (''z'', ''4'')]),
                           (''6'', [(''x'', ''9'')])])],
             True, [''foot''])"
proof -
  have np: "\<not> HasPrefix ''m,t=a x=1,y=2 5'' stopLine" "\<not> HasPrefix ''m,t=a y=3,z=4 5'' stopLine"
    "\<not> HasPrefix ''m,t=a x=9 6'' stopLine" "HasPrefix ''# writing wal data'' stopLine"
    by (simp_all add: HasPrefix_def stopLine_def)
  have o: "other_point go_strconv ''m,t=a'' ''5'' ''m,t=a x=9 6''"
    using np(3) parse_examples(2) by (simp add: other_point_def)
  then have os: "\<forall>l\<in>set ([] @ [''m,t=a x=9 6''] @ []). other_point go_strconv ''m,t=a'' ''5'' l"
    by simp
  have rd: "readData go_strconv
         [''m,t=a x=1,y=2 5'', ''m,t=a x=9 6'', ''m,t=a y=3,z=4 5'', ''# writing wal data'', ''foot'']
         []
       = Ok ([(''m,t=a'', [(''5'', [(''x'', ''1''), (''y'', ''3''), (''z'', ''4'')]),
                           (''6'', [(''x'', ''9'')])])],
             True, [''foot''])"
    using np by (simp add: parse_examples addPoint_def)
  from readData_merges_same_key_and_timestamp
         [OF np(1) parse_examples(1) np(2) parse_examples(3) os np(4), of "[''foot'']"]
       parse_examples o rd
  show ?thesis by simp
qed

section \<open>Well-formed keys\<close>

text \<open>
  The keys that the key scanner reads to their end: blanks, a measurement, tags behind
  commas, a space.
\<close>

text \<open>
  \<open>free_of S prev xs\<close>: no byte of \<open>xs\<close> that belongs to \<open>S\<close> is unescaped, where a byte is
  escaped when the byte before it (\<open>prev\<close> for the first one) is a backslash.  This is the
  notion of escaping of the tag scanners, which look one byte back.
\<close>

fun free_of :: "char set \<Rightarrow> char \<Rightarrow> string \<Rightarrow> bool" where
  "free_of S prev [] = True"
| "free_of S prev (x # xs) = ((x \<in> S \<longrightarrow> prev = bslash) \<and> free_of S x xs)"

text \<open>A run of bytes that starts with \<open>x\<close>, holds no unescaped byte of \<open>S\<close> behind it, and
  does not end with a backslash, so that the byte behind the run is unescaped.\<close>

definition run_ok :: "char set \<Rightarrow> string \<Rightarrow> bool" where
  "run_ok S xs \<longleftrightarrow> xs \<noteq> [] \<and> free_of S (hd xs) (tl xs) \<and> last xs \<noteq> bslash"

lemma nth_pre0 [simp]: "(pre @ a # r) ! length pre = a"
  by simp

lemma nth_pre1 [simp]: "(pre @ a # b # r) ! Suc (length pre) = b"
  by (simp add: nth_append)

lemma scanMeasurement_loop_step:
  "scanMeasurement_loop (pre @ prev # x # r) (length pre) =
     (if prev = bslash then scanMeasurement_loop ((pre @ [prev]) @ x # r) (length (pre @ [prev]))
      else if x = CHR '','' then Ok (tagKeyState, length pre + 2)
      else if x = CHR '' '' then Ok (fieldsState, length pre + 1)
      else scanMeasurement_loop ((pre @ [prev]) @ x # r) (length (pre @ [prev])))"
  by (subst scanMeasurement_loop.simps) (simp add: Let_def split del: if_split cong: if_cong)

lemma scanMeasurement_loop_run:
  assumes "free_of {CHR '','', CHR '' ''} prev xs" "last (prev # xs) \<noteq> bslash"
    and "c = CHR '','' \<or> c = CHR '' ''"
  shows "scanMeasurement_loop (pre @ prev # xs @ c # rest) (length pre) =
     Ok (if c = CHR '','' then (tagKeyState, length pre + length xs + 2)
         else (fieldsState, length pre + length xs + 1))"
  using assms
proof (induction xs arbitrary: pre prev)
  case Nil
  then show ?case
    using scanMeasurement_loop_step [of pre prev c rest] by auto
next
  case (Cons x xs)
  have IH: "scanMeasurement_loop ((pre @ [prev]) @ x # xs @ c # rest) (length (pre @ [prev])) =
     Ok (if c = CHR '','' then (tagKeyState, length (pre @ [prev]) + length xs + 2)
         else (fieldsState, length (pre @ [prev]) + length xs + 1))"
    using Cons.prems by (intro Cons.IH) simp_all
  from Cons.prems(1) have "prev \<noteq> bslash \<Longrightarrow> x \<noteq> CHR '','' \<and> x \<noteq> CHR '' ''"
    by auto
  then show ?case
    using scanMeasurement_loop_step [of pre prev x "xs @ c # rest"] IH
    by (cases "prev = bslash") simp_all
qed


lemma scanTagsKey_loop_step:
  "scanTagsKey_loop (pre @ prev # x # r) (length pre) =
     (if (x = CHR '' '' \<or> x = CHR '','') \<and> prev \<noteq> bslash then Err MissingTagValue
      else if x = CHR ''='' \<and> prev \<noteq> bslash then Ok (length pre + 2)
      else scanTagsKey_loop ((pre @ [prev]) @ x # r) (length (pre @ [prev])))"
  by (subst scanTagsKey_loop.simps) (simp add: Let_def split del: if_split cong: if_cong)

lemma scanTagsKey_loop_run:
  assumes "free_of {CHR '' '', CHR '','', CHR ''=''} prev xs" "last (prev # xs) \<noteq> bslash"
  shows "scanTagsKey_loop (pre @ prev # xs @ CHR ''='' # rest) (length pre) =
           Ok (length pre + length xs + 2)"
  using assms
proof (induction xs arbitrary: pre prev)
  case Nil
  then show ?case
    using scanTagsKey_loop_step [of pre prev "CHR ''=''" rest] by simp
next
  case (Cons x xs)
  have IH: "scanTagsKey_loop ((pre @ [prev]) @ x # xs @ CHR ''='' # rest) (length (pre @ [prev])) =
     Ok (length (pre @ [prev]) + length xs + 2)"
    using Cons.prems by (intro Cons.IH) simp_all
  from Cons.prems(1) have "prev \<noteq> bslash \<Longrightarrow> x \<noteq> CHR '','' \<and> x \<noteq> CHR '' '' \<and> x \<noteq> CHR ''=''"
    by auto
  then show ?case
    using scanTagsKey_loop_step [of pre prev x "xs @ CHR ''='' # rest"] IH
    by (cases "prev = bslash") simp_all
qed

lemma scanTagsValue_loop_step:
  "scanTagsValue_loop (pre @ prev # x # r) (length pre) =
     (if x = CHR ''='' \<and> prev \<noteq> bslash then Err InvalidTagFormat
      else if x = CHR '','' \<and> prev \<noteq> bslash then Ok (tagKeyState, length pre + 2)
      else if x = CHR '' '' \<and> prev \<noteq> bslash then Ok (fieldsState, length pre + 1)
      else scanTagsValue_loop ((pre @ [prev]) @ x # r) (length (pre @ [prev])))"
  by (subst scanTagsValue_loop.simps) (simp add: Let_def split del: if_split cong: if_cong)

lemma scanTagsValue_loop_run:
  assumes "free_of {CHR ''='', CHR '','', CHR '' ''} prev xs" "last (prev # xs) \<noteq> bslash"
    and "c = CHR '','' \<or> c = CHR '' ''"
  shows "scanTagsValue_loop (pre @ prev # xs @ c # rest) (length pre) =
     Ok (if c = CHR '','' then (tagKeyState, length pre + length xs + 2)
         else (fieldsState, length pre + length xs + 1))"
  using assms
proof (induction xs arbitrary: pre prev)
  case Nil
  then show ?case
    using scanTagsValue_loop_step [of pre prev c rest] by auto
next
  case (Cons x xs)
  have IH: "scanTagsValue_loop ((pre @ [prev]) @ x # xs @ c # rest) (length (pre @ [prev])) =
     Ok (if c = CHR '','' then (tagKeyState, length (pre @ [prev]) + length xs + 2)
         else (fieldsState, length (pre @ [prev]) + length xs + 1))"
    using Cons.prems by (intro Cons.IH) simp_all
  from Cons.prems(1) have "prev \<noteq> bslash \<Longrightarrow> x \<noteq> CHR '','' \<and> x \<noteq> CHR '' '' \<and> x \<noteq> CHR ''=''"
    by auto
  then show ?case
    using scanTagsValue_loop_step [of pre prev x "xs @ c # rest"] IH
    by (cases "prev = bslash") simp_all
qed

text \<open>
  The measurement, the tag keys and the tag values that the scanner reads as one unit
  each.  A tag is its key and its value; its bytes are \<open>key=value\<close>.
\<close>

definition wf_measurement :: "string \<Rightarrow> bool" where
  "wf_measurement m \<longleftrightarrow>
     run_ok {CHR '','', CHR '' ''} m \<and> hd m \<notin> {CHR '','', CHR '' '', tab, nul}"

definition wf_tag_key :: "string \<Rightarrow> bool" where
  "wf_tag_key k \<longleftrightarrow>
     run_ok {CHR '' '', CHR '','', CHR ''=''} k \<and> hd k \<notin> {CHR '' '', CHR '','', CHR ''=''}"

definition wf_tag_value :: "string \<Rightarrow> bool" where
  "wf_tag_value v \<longleftrightarrow>
     run_ok {CHR ''='', CHR '','', CHR '' ''} v \<and> hd v \<notin> {CHR '','', CHR '' ''}"

type_synonym tag = "string \<times> string"

definition wf_tag :: "tag \<Rightarrow> bool" where
  "wf_tag t \<longleftrightarrow> wf_tag_key (fst t) \<and> wf_tag_value (snd t)"

definition tag_bytes :: "tag \<Rightarrow> string" where
  "tag_bytes t = fst t @ CHR ''='' # snd t"

lemma scanMeasurement_run:
  assumes "wf_measurement m" "c = CHR '','' \<or> c = CHR '' ''"
  shows "scanMeasurement (pre @ m @ c # rest) (length pre) =
     Ok (if c = CHR '','' then (tagKeyState, length pre + length m + 1)
         else (fieldsState, length pre + length m))"
proof -
  from assms(1) obtain x xs where m: "m = x # xs"
    by (cases m) (auto simp: wf_measurement_def run_ok_def)
  with assms(1) have "free_of {CHR '','', CHR '' ''} x xs" "last (x # xs) \<noteq> bslash" "x \<noteq> CHR '',''"
    by (auto simp: wf_measurement_def run_ok_def)
  with scanMeasurement_loop_run [OF this(1,2) assms(2), of pre rest] show ?thesis
    by (simp add: scanMeasurement_def m)
qed

lemma scanTagsKey_run:
  assumes "wf_tag_key k"
  shows "scanTagsKey (pre @ k @ CHR ''='' # rest) (length pre) = Ok (length pre + length k + 1)"
proof -
  from assms obtain x xs where k: "k = x # xs"
    by (cases k) (auto simp: wf_tag_key_def run_ok_def)
  with assms have "free_of {CHR '' '', CHR '','', CHR ''=''} x xs" "last (x # xs) \<noteq> bslash"
    "x \<noteq> CHR '',''" "x \<noteq> CHR '' ''" "x \<noteq> CHR ''=''"
    by (auto simp: wf_tag_key_def run_ok_def)
  with scanTagsKey_loop_run [OF this(1,2), of pre rest] show ?thesis
    by (simp add: scanTagsKey_def k)
qed

lemma scanTagsValue_run:
  assumes "wf_tag_value v" "c = CHR '','' \<or> c = CHR '' ''"
  shows "scanTagsValue (pre @ v @ c # rest) (length pre) =
     Ok (if c = CHR '','' then (tagKeyState, length pre + length v + 1)
         else (fieldsState, length pre + length v))"
proof -
  from assms(1) obtain x xs where v: "v = x # xs"
    by (cases v) (auto simp: wf_tag_value_def run_ok_def)
  with assms(1) have "free_of {CHR ''='', CHR '','', CHR '' ''} x xs" "last (x # xs) \<noteq> bslash"
    "x \<noteq> CHR '',''" "x \<noteq> CHR '' ''"
    by (auto simp: wf_tag_value_def run_ok_def)
  with scanTagsValue_loop_run [OF this(1,2) assms(2), of pre rest] show ?thesis
    by (simp add: scanTagsValue_def v)
qed


text \<open>The bytes of the tags of a key, each behind its comma.\<close>

definition tags_bytes :: "tag list \<Rightarrow> string" where
  "tags_bytes ts = concat (map (\<lambda>t. CHR '','' # tag_bytes t) ts)"

text \<open>The index of the first byte of each tag, when the comma of the first tag is at \<open>q\<close>.\<close>

fun tag_starts :: "nat \<Rightarrow> tag list \<Rightarrow> nat list" where
  "tag_starts q [] = []"
| "tag_starts q (t # ts) = Suc q # tag_starts (Suc q + length (tag_bytes t)) ts"

text \<open>
  What the state \<open>tagKeyState\<close> does to the slice of indices for the tags that start at
  the positions \<open>ps\<close>, from the count \<open>c\<close> on.
\<close>

fun record_indices :: "nat list \<Rightarrow> nat \<Rightarrow> nat list \<Rightarrow> nat list" where
  "record_indices idx c [] = idx"
| "record_indices idx c (p # ps) =
     record_indices ((if c \<ge> length idx then grow idx else idx)[c := p]) (Suc c) ps"

lemma length_grow [simp]: "length (grow idx) = 2 * length idx"
  by (simp add: grow_def)

lemma scanTags_loop_key:
  assumes "scanTagsKey buf i = Ok i'" "0 < length idx" "c \<le> length idx"
  shows "scanTags_loop buf tagKeyState i c idx =
           scanTags_loop buf tagValueState i' (Suc c)
             ((if c \<ge> length idx then grow idx else idx)[c := i])"
  using assms by (subst scanTags_loop.simps) (auto simp: Let_def)

lemma scanTags_loop_value:
  assumes "scanTagsValue buf i = Ok (st, i')"
  shows "scanTags_loop buf tagValueState i c idx = scanTags_loop buf st i' c idx"
  using assms by (subst scanTags_loop.simps) simp

lemma scanTags_loop_fields:
  "scanTags_loop buf fieldsState i c idx =
     (if c \<ge> length idx then Err Panic else Ok (i, c, idx[c := i + 1]))"
  by (subst scanTags_loop.simps) simp

lemma tags_bytes_Cons: "tags_bytes (t # ts) = CHR '','' # tag_bytes t @ tags_bytes ts"
  by (simp add: tags_bytes_def)

lemma tags_bytes_Nil [simp]: "tags_bytes [] = []"
  by (simp add: tags_bytes_def)

lemma scanTags_loop_tags:
  assumes "\<forall>t\<in>set (t # ts). wf_tag t" "0 < length idx" "c \<le> length idx"
  shows "scanTags_loop (pre @ tags_bytes (t # ts) @ CHR '' '' # rest) tagKeyState (Suc (length pre)) c idx =
     (let idx' = record_indices idx c (tag_starts (length pre) (t # ts));
          e = length pre + length (tags_bytes (t # ts));
          n = c + length (t # ts)
      in if n \<ge> length idx' then Err Panic else Ok (e, n, idx'[n := e + 1]))"
  using assms
proof (induction ts arbitrary: pre t c idx)
  case Nil
  obtain k v where t: "t = (k, v)" by (cases t)
  from Nil.prems(1) have wf: "wf_tag_key k" "wf_tag_value v" by (simp_all add: wf_tag_def t)
  let ?buf = "pre @ tags_bytes [t] @ CHR '' '' # rest"
  let ?idx = "(if c \<ge> length idx then grow idx else idx)[c := Suc (length pre)]"
  have buf1: "?buf = (pre @ '','') @ k @ CHR ''='' # (v @ CHR '' '' # rest)"
    by (simp add: tags_bytes_Cons tag_bytes_def t)
  have buf2: "?buf = (pre @ '','' @ k @ ''='') @ v @ CHR '' '' # rest"
    by (simp add: tags_bytes_Cons tag_bytes_def t)
  have key: "scanTagsKey ?buf (Suc (length pre)) = Ok (Suc (length pre) + length k + 1)"
    unfolding buf1 using scanTagsKey_run [OF wf(1), of "pre @ '',''"] by simp
  have val: "scanTagsValue ?buf (Suc (length pre) + length k + 1) =
               Ok (fieldsState, Suc (length pre) + length k + 1 + length v)"
    unfolding buf2 using scanTagsValue_run [OF wf(2), of "CHR '' ''" "pre @ '','' @ k @ ''=''" rest]
    by simp
  show ?case
    unfolding scanTags_loop_key [OF key Nil.prems(2,3)] scanTags_loop_value [OF val]
      scanTags_loop_fields
    by (simp add: Let_def tags_bytes_Cons tag_bytes_def t add.assoc)
next
  case (Cons t' ts)
  obtain k v where t: "t = (k, v)" by (cases t)
  from Cons.prems(1) have wf: "wf_tag_key k" "wf_tag_value v" by (simp_all add: wf_tag_def t)
  let ?buf = "pre @ tags_bytes (t # t' # ts) @ CHR '' '' # rest"
  let ?idx = "(if c \<ge> length idx then grow idx else idx)[c := Suc (length pre)]"
  let ?pre' = "pre @ CHR '','' # tag_bytes t"
  have buf1: "?buf = (pre @ '','') @ k @ CHR ''='' # (v @ tags_bytes (t' # ts) @ CHR '' '' # rest)"
    by (simp add: tags_bytes_Cons tag_bytes_def t)
  have buf2: "?buf = (pre @ '','' @ k @ ''='') @ v @ CHR '','' # (tag_bytes t' @ tags_bytes ts @ CHR '' '' # rest)"
    by (simp add: tags_bytes_Cons tag_bytes_def t)
  have buf3: "?buf = ?pre' @ tags_bytes (t' # ts) @ CHR '' '' # rest"
    by (simp add: tags_bytes_Cons)
  have key: "scanTagsKey ?buf (Suc (length pre)) = Ok (Suc (length pre) + length k + 1)"
    unfolding buf1 using scanTagsKey_run [OF wf(1), of "pre @ '',''"] by simp
  have val: "scanTagsValue ?buf (Suc (length pre) + length k + 1) =
               Ok (tagKeyState, Suc (length ?pre'))"
    unfolding buf2 using scanTagsValue_run [OF wf(2), of "CHR '',''" "pre @ '','' @ k @ ''=''"]
    by (simp add: tag_bytes_def t)
  have len: "length ?idx = (if c \<ge> length idx then 2 * length idx else length idx)"
    by simp
  have inv: "0 < length ?idx" "Suc c \<le> length ?idx"
    unfolding len using Cons.prems(2,3) by (cases "c \<ge> length idx"; simp)+
  from Cons.prems(1) have wfs: "\<forall>t\<in>set (t' # ts). wf_tag t" by simp
  have IH: "scanTags_loop ?buf tagKeyState (Suc (length ?pre')) (Suc c) ?idx =
     (let idx' = record_indices ?idx (Suc c) (tag_starts (length ?pre') (t' # ts));
          e = length ?pre' + length (tags_bytes (t' # ts));
          n = Suc c + length (t' # ts)
      in if n \<ge> length idx' then Err Panic else Ok (e, n, idx'[n := e + 1]))"
    unfolding buf3 using wfs inv by (rule Cons.IH)
  have e: "length pre + length (tags_bytes (t # t' # ts)) = length ?pre' + length (tags_bytes (t' # ts))"
    by (simp add: tags_bytes_Cons)
  have n: "c + length (t # t' # ts) = Suc c + length (t' # ts)"
    by simp
  have r: "record_indices idx c (tag_starts (length pre) (t # t' # ts)) =
             record_indices ?idx (Suc c) (tag_starts (length ?pre') (t' # ts))"
    by (simp del: tag_starts.simps record_indices.simps
          add: tag_starts.simps(2) [of _ t] record_indices.simps(2) [of _ _ "Suc (length pre)"])
  show ?case
    unfolding scanTags_loop_key [OF key Cons.prems(2,3)] scanTags_loop_value [OF val] IH e n r ..
qed


lemma free_of_mono: "free_of S prev xs \<Longrightarrow> T \<subseteq> S \<Longrightarrow> free_of T prev xs"
  by (induction xs arbitrary: prev) auto

lemma free_of_append:
  "free_of S prev (xs @ ys) \<longleftrightarrow> free_of S prev xs \<and> free_of S (last (prev # xs)) ys"
  by (induction xs arbitrary: prev) auto

lemma scanTo_loop_step:
  "scanTo_loop (pre @ prev # x # r) (Suc (length pre)) stop =
     (if x = stop \<and> prev \<noteq> bslash then Suc (length pre)
      else scanTo_loop ((pre @ [prev]) @ x # r) (length (pre @ [prev]) + 1) stop)"
  by (subst scanTo_loop.simps) (simp split del: if_split cong: if_cong)

lemma scanTo_loop_run:
  assumes "free_of {stop} prev xs" "last (prev # xs) \<noteq> bslash"
  shows "scanTo_loop (pre @ prev # xs @ stop # rest) (Suc (length pre)) stop = Suc (length pre + length xs)"
  using assms
proof (induction xs arbitrary: pre prev)
  case Nil
  then show ?case using scanTo_loop_step [of pre prev stop rest stop] by simp
next
  case (Cons x xs)
  have IH: "scanTo_loop ((pre @ [prev]) @ x # xs @ stop # rest) (Suc (length (pre @ [prev]))) stop =
              Suc (length (pre @ [prev]) + length xs)"
    using Cons.prems by (intro Cons.IH) simp_all
  from Cons.prems(1) have "prev \<noteq> bslash \<Longrightarrow> x \<noteq> stop" by auto
  then show ?case
    using scanTo_loop_step [of pre prev x "xs @ stop # rest" stop] IH by auto
qed

text \<open>The name of a tag, as \<open>scanTo\<close> reads it at the first byte of the tag.\<close>

lemma scanTo_tag_name:
  assumes "wf_tag_key k"
  shows "scanTo (pre @ k @ CHR ''='' # rest) (length pre) (CHR ''='') = Ok (length pre + length k, k)"
proof -
  from assms obtain x xs where k: "k = x # xs"
    by (cases k) (auto simp: wf_tag_key_def run_ok_def)
  with assms have f: "free_of {CHR ''=''} x xs" and l: "last (x # xs) \<noteq> bslash" and x: "x \<noteq> CHR ''=''"
    by (auto simp: wf_tag_key_def run_ok_def elim: free_of_mono)
  have "scanTo_loop (pre @ x # xs @ CHR ''='' # rest) (length pre) (CHR ''='') =
          scanTo_loop (pre @ x # xs @ CHR ''='' # rest) (Suc (length pre)) (CHR ''='')"
    using x by (subst scanTo_loop.simps) simp
  also have "\<dots> = Suc (length pre + length xs)"
    using f l by (rule scanTo_loop_run)
  finally show ?thesis
    by (simp add: scanTo_def k slice_def)
qed

lemma scanToSpaceOr_loop_step:
  "scanToSpaceOr_loop (pre @ prev # x # r) (length pre) stop =
     (if prev = bslash then scanToSpaceOr_loop ((pre @ [prev]) @ x # r) (length (pre @ [prev])) stop
      else if x = stop \<or> x = CHR '' '' then Ok (Suc (length pre))
      else scanToSpaceOr_loop ((pre @ [prev]) @ x # r) (length (pre @ [prev])) stop)"
  by (subst scanToSpaceOr_loop.simps) (simp add: Let_def split del: if_split cong: if_cong)

lemma scanToSpaceOr_loop_run:
  assumes "free_of {stop, CHR '' ''} prev xs" "last (prev # xs) \<noteq> bslash"
    and "c = stop \<or> c = CHR '' ''"
  shows "scanToSpaceOr_loop (pre @ prev # xs @ c # rest) (length pre) stop = Ok (Suc (length pre + length xs))"
  using assms
proof (induction xs arbitrary: pre prev)
  case Nil
  then show ?case using scanToSpaceOr_loop_step [of pre prev c rest stop] by auto
next
  case (Cons x xs)
  have IH: "scanToSpaceOr_loop ((pre @ [prev]) @ x # xs @ c # rest) (length (pre @ [prev])) stop =
              Ok (Suc (length (pre @ [prev]) + length xs))"
    using Cons.prems by (intro Cons.IH) simp_all
  from Cons.prems(1) have "prev \<noteq> bslash \<Longrightarrow> x \<noteq> stop \<and> x \<noteq> CHR '' ''" by auto
  then show ?case
    using scanToSpaceOr_loop_step [of pre prev x "xs @ c # rest" stop] IH by auto
qed

lemma tag_bytes_run:
  assumes "wf_tag t"
  shows "run_ok {CHR '','', CHR '' ''} (tag_bytes t) \<and> hd (tag_bytes t) \<notin> {CHR '','', CHR '' ''}"
proof -
  obtain k v where t: "t = (k, v)" by (cases t)
  from assms obtain x xs where k: "k = x # xs"
    by (cases k) (auto simp: t wf_tag_def wf_tag_key_def run_ok_def)
  from assms obtain y ys where v: "v = y # ys"
    by (cases v) (auto simp: t wf_tag_def wf_tag_value_def run_ok_def)
  from assms have fk: "free_of {CHR '','', CHR '' ''} x xs" and fv: "free_of {CHR '','', CHR '' ''} y ys"
    and ends: "last (y # ys) \<noteq> bslash" "x \<notin> {CHR '','', CHR '' ''}" "y \<notin> {CHR '','', CHR '' ''}"
    by (auto simp: t k v wf_tag_def wf_tag_key_def wf_tag_value_def run_ok_def elim: free_of_mono)
  have "free_of {CHR '','', CHR '' ''} x (xs @ CHR ''='' # y # ys)"
    using fk fv ends by (simp add: free_of_append)
  with ends show ?thesis
    by (simp add: tag_bytes_def t k v run_ok_def)
qed

text \<open>The span of a tag, as \<open>scanToSpaceOr\<close> reads it at the first byte of the tag.\<close>

lemma scanToSpaceOr_tag:
  assumes "wf_tag t" "c = CHR '','' \<or> c = CHR '' ''"
  shows "scanToSpaceOr (pre @ tag_bytes t @ c # rest) (length pre) (CHR '','') =
           Ok (length pre + length (tag_bytes t), tag_bytes t)"
proof -
  from tag_bytes_run [OF assms(1)] obtain x xs where tb: "tag_bytes t = x # xs"
    and f: "free_of {CHR '','', CHR '' ''} x xs" and l: "last (x # xs) \<noteq> bslash"
    and x: "x \<noteq> CHR '',''" "x \<noteq> CHR '' ''"
    by (cases "tag_bytes t") (auto simp: run_ok_def)
  have "scanToSpaceOr_loop (pre @ x # xs @ c # rest) (length pre) (CHR '','') = Ok (Suc (length pre + length xs))"
    using f l assms(2) by (rule scanToSpaceOr_loop_run)
  with x show ?thesis
    by (simp add: scanToSpaceOr_def tb at_def slice_def)
qed

subsection \<open>The slice of indices\<close>

text \<open>The length of the slice of indices after \<open>n\<close> more tags, from length \<open>L\<close> and count \<open>c\<close>.\<close>

fun capacity :: "nat \<Rightarrow> nat \<Rightarrow> nat \<Rightarrow> nat" where
  "capacity L c 0 = L"
| "capacity L c (Suc n) = capacity (if c \<ge> L then 2 * L else L) (Suc c) n"

lemma length_record_indices:
  "length (record_indices idx c ps) = capacity (length idx) c (length ps)"
  by (induction ps arbitrary: idx c) simp_all

lemma capacity_fits: "c + n \<le> L \<Longrightarrow> capacity L c n = L"
  by (induction n arbitrary: c) simp_all

lemma capacity_ge: "0 < L \<Longrightarrow> c \<le> L \<Longrightarrow> c + n \<le> capacity L c n"
proof (induction n arbitrary: L c)
  case 0
  then show ?case by simp
next
  case (Suc n)
  have "Suc c + n \<le> capacity (if c \<ge> L then 2 * L else L) (Suc c) n"
    using Suc.prems by (intro Suc.IH) auto
  then show ?case by simp
qed

lemma take_record_indices:
  assumes "0 < length idx" "c \<le> length idx"
  shows "take (c + length ps) (record_indices idx c ps) = take c idx @ ps"
  using assms
proof (induction ps arbitrary: idx c)
  case Nil
  then show ?case by simp
next
  case (Cons p ps)
  let ?idx = "(if c \<ge> length idx then grow idx else idx)[c := p]"
  have len: "length ?idx = (if c \<ge> length idx then 2 * length idx else length idx)"
    by simp
  have inv: "0 < length ?idx" "Suc c \<le> length ?idx"
    unfolding len using Cons.prems by (cases "c \<ge> length idx"; simp)+
  have "take (Suc c + length ps) (record_indices ?idx (Suc c) ps) = take (Suc c) ?idx @ ps"
    using inv by (rule Cons.IH)
  moreover have "take (Suc c) ?idx = take c idx @ [p]"
  proof (cases "c \<ge> length idx")
    case True
    with Cons.prems have c: "c = length idx" by simp
    have "take (Suc c) ((grow idx)[c := p]) = take c (grow idx) @ [p]"
      using Cons.prems by (simp add: take_Suc_conv_app_nth c)
    moreover have "take c (grow idx) = idx"
      by (simp add: grow_def c)
    ultimately show ?thesis using True c by simp
  next
    case False
    then show ?thesis by (simp add: take_Suc_conv_app_nth)
  qed
  ultimately show ?case by simp
qed

text \<open>A tag \<open>t\<close> lies in \<open>buf\<close> at \<open>p\<close>, before a comma or a space.\<close>

definition tag_at :: "string \<Rightarrow> nat \<times> tag \<Rightarrow> bool" where
  "tag_at buf pt \<longleftrightarrow>
     wf_tag (snd pt) \<and>
     (\<exists>pre c rest. buf = pre @ tag_bytes (snd pt) @ c # rest \<and> length pre = fst pt \<and>
        (c = CHR '','' \<or> c = CHR '' ''))"

lemma tag_atI:
  "wf_tag t \<Longrightarrow> buf = pre @ tag_bytes t @ c # rest \<Longrightarrow> c = CHR '','' \<or> c = CHR '' '' \<Longrightarrow>
   tag_at buf (length pre, t)"
  unfolding tag_at_def by auto

lemma tags_layout:
  assumes "\<forall>t\<in>set ts. wf_tag t"
  shows "\<forall>pt\<in>set (zip (tag_starts (length pre) ts) ts).
           tag_at (pre @ tags_bytes ts @ CHR '' '' # rest) pt"
  using assms
proof (induction ts arbitrary: pre)
  case Nil
  then show ?case by simp
next
  case (Cons t ts)
  let ?buf = "pre @ tags_bytes (t # ts) @ CHR '' '' # rest"
  let ?pre' = "pre @ CHR '','' # tag_bytes t"
  have buf3: "?buf = ?pre' @ tags_bytes ts @ CHR '' '' # rest"
    by (simp add: tags_bytes_Cons)
  have IH: "\<forall>pt\<in>set (zip (tag_starts (length ?pre') ts) ts). tag_at ?buf pt"
    unfolding buf3 using Cons.prems by (intro Cons.IH) simp
  have "\<exists>c r. tags_bytes ts @ CHR '' '' # rest = c # r \<and> (c = CHR '','' \<or> c = CHR '' '')"
    by (cases ts) (simp_all add: tags_bytes_Cons)
  then obtain c r where cr: "tags_bytes ts @ CHR '' '' # rest = c # r" "c = CHR '','' \<or> c = CHR '' ''"
    by blast
  have "?buf = (pre @ '','') @ tag_bytes t @ c # r"
    using cr(1) by (simp add: tags_bytes_Cons)
  with Cons.prems cr(2) have "tag_at ?buf (length (pre @ '',''), t)"
    by (intro tag_atI) auto
  with IH show ?case by simp
qed

lemma length_tag_starts [simp]: "length (tag_starts q ts) = length ts"
  by (induction ts arbitrary: q) simp_all

text \<open>The entry behind the start of tag \<open>j\<close>: the start of the next tag, or of the fields.\<close>

lemma tag_starts_next:
  assumes "j < length ts"
  shows "(tag_starts q ts @ [Suc (q + length (tags_bytes ts))]) ! Suc j =
           Suc (tag_starts q ts ! j + length (tag_bytes (ts ! j)))"
  using assms
proof (induction ts arbitrary: q j)
  case Nil
  then show ?case by simp
next
  case (Cons t ts)
  show ?case
  proof (cases j)
    case 0
    then show ?thesis by (cases ts) (simp_all add: tags_bytes_Cons)
  next
    case (Suc j')
    with Cons.prems have "j' < length ts" by simp
    from Cons.IH [OF this, of "Suc q + length (tag_bytes t)"] show ?thesis
      by (simp add: Suc tags_bytes_Cons add.assoc)
  qed
qed

lemma tag_starts_first: "ts \<noteq> [] \<Longrightarrow> tag_starts q ts ! 0 = Suc q"
  by (cases ts) simp_all

subsection \<open>Names, spans and the sort\<close>

lemma tag_at_name:
  assumes "tag_at buf (p, t)"
  shows "scanTo buf p (CHR ''='') = Ok (p + length (fst t), fst t)"
proof -
  from assms obtain pre c rest where b: "buf = pre @ tag_bytes t @ c # rest" "length pre = p"
    and wf: "wf_tag_key (fst t)"
    by (auto simp: tag_at_def wf_tag_def)
  have "buf = pre @ fst t @ CHR ''='' # (snd t @ c # rest)"
    by (simp add: b(1) tag_bytes_def)
  then show ?thesis
    using scanTo_tag_name [OF wf, of pre "snd t @ c # rest"] b(2) by simp
qed

lemma tag_at_suffix:
  assumes "tag_at buf (p, t)"
  shows "slice buf p (length buf) = Ok (drop p buf)"
    and "scanTo (drop p buf) 0 (CHR ''='') = Ok (length (fst t), fst t)"
proof -
  from assms obtain pre c rest where b: "buf = pre @ tag_bytes t @ c # rest" "length pre = p"
    and wf: "wf_tag_key (fst t)"
    by (auto simp: tag_at_def wf_tag_def)
  show "slice buf p (length buf) = Ok (drop p buf)"
    using b by (simp add: slice_def)
  have "drop p buf = [] @ fst t @ CHR ''='' # (snd t @ c # rest)"
    using b by (simp add: tag_bytes_def)
  then show "scanTo (drop p buf) 0 (CHR ''='') = Ok (length (fst t), fst t)"
    using scanTo_tag_name [OF wf, of "[]" "snd t @ c # rest"] by simp
qed

lemma tag_bytes_name:
  assumes "wf_tag t"
  shows "scanTo (tag_bytes t) 0 (CHR ''='') = Ok (length (fst t), fst t)"
  using assms scanTo_tag_name [of "fst t" "[]" "snd t"] by (simp add: wf_tag_def tag_bytes_def)

lemma tag_at_span:
  assumes "tag_at buf (p, t)"
  shows "scanToSpaceOr buf p (CHR '','') = Ok (p + length (tag_bytes t), tag_bytes t)"
    and "slice buf p (p + length (tag_bytes t)) = Ok (tag_bytes t)"
proof -
  from assms obtain pre c rest where b: "buf = pre @ tag_bytes t @ c # rest" "length pre = p"
    and c: "c = CHR '','' \<or> c = CHR '' ''" and wf: "wf_tag t"
    by (auto simp: tag_at_def)
  show "scanToSpaceOr buf p (CHR '','') = Ok (p + length (tag_bytes t), tag_bytes t)"
    using scanToSpaceOr_tag [OF wf c, of pre rest] b by simp
  show "slice buf p (p + length (tag_bytes t)) = Ok (tag_bytes t)"
    using b by (simp add: slice_def)
qed

text \<open>The name of a tag, the key of the sort.\<close>

abbreviation tag_name :: "nat \<times> tag \<Rightarrow> string" where
  "tag_name pt \<equiv> fst (snd pt)"

lemma less_indices_tags:
  assumes "\<forall>pt\<in>set pts. tag_at buf pt" "i < length pts" "j < length pts"
  shows "less_indices buf (map fst pts) i j = Ok (tag_name (pts ! i) < tag_name (pts ! j))"
proof -
  from assms have "tag_at buf (fst (pts ! i), snd (pts ! i))" "tag_at buf (fst (pts ! j), snd (pts ! j))"
    by simp_all
  from tag_at_name [OF this(1)] tag_at_name [OF this(2)] show ?thesis
    using assms(2,3) by (simp add: less_indices_def at_def bytes_Compare_def)
qed

lemma insertionSort_inner_tags:
  assumes "\<forall>pt\<in>set (xs @ x # rest). tag_at buf pt" "sorted (map tag_name xs)"
  shows "\<exists>xs'. insertionSort_inner 0 buf (map fst (xs @ x # rest)) (length xs) = Ok (map fst (xs' @ rest)) \<and>
               mset xs' = mset (x # xs) \<and> sorted (map tag_name xs')"
  using assms
proof (induction xs arbitrary: rest rule: rev_induct)
  case Nil
  show ?case
    by (subst insertionSort_inner.simps) (simp add: exI [of _ "[x]"])
next
  case (snoc y ys)
  let ?pts = "(ys @ [y]) @ x # rest"
  have lt: "less_indices buf (map fst ?pts) (length (ys @ [y])) (length (ys @ [y]) - 1) =
              Ok (tag_name x < tag_name y)"
    using less_indices_tags [OF snoc.prems(1), of "length (ys @ [y])" "length (ys @ [y]) - 1"]
    by (simp add: nth_append)
  show ?case
  proof (cases "tag_name x < tag_name y")
    case True
    have swap: "(map fst ?pts)[length (ys @ [y]) := map fst ?pts ! (length (ys @ [y]) - 1),
                  length (ys @ [y]) - 1 := map fst ?pts ! length (ys @ [y])] =
                map fst (ys @ x # (y # rest))"
      by (simp add: list_update_append nth_append)
    have "\<forall>pt\<in>set (ys @ x # (y # rest)). tag_at buf pt" "sorted (map tag_name ys)"
      using snoc.prems by (auto simp: sorted_append)
    from snoc.IH [OF this] obtain xs' where
      xs': "insertionSort_inner 0 buf (map fst (ys @ x # (y # rest))) (length ys) = Ok (map fst (xs' @ y # rest))"
        "mset xs' = mset (x # ys)" "sorted (map tag_name xs')"
      by blast
    have step: "insertionSort_inner 0 buf (map fst ?pts) (length (ys @ [y])) =
                  insertionSort_inner 0 buf (map fst (ys @ x # (y # rest))) (length ys)"
      by (subst insertionSort_inner.simps) (simp only: lt bind_r_simps True if_True swap, simp)
    from xs'(2) have set: "set xs' = insert x (set ys)"
      by (metis mset_eq_setD list.simps(15))
    have "sorted (map tag_name (xs' @ [y]))"
      using xs'(3) snoc.prems(2) True by (auto simp: sorted_append set)
    moreover have "mset (xs' @ [y]) = mset (x # ys @ [y])"
      using xs'(2) by simp
    ultimately show ?thesis
      unfolding step xs'(1) by (intro exI [of _ "xs' @ [y]"]) simp
  next
    case False
    have step: "insertionSort_inner 0 buf (map fst ?pts) (length (ys @ [y])) = Ok (map fst ?pts)"
      by (subst insertionSort_inner.simps) (simp only: lt bind_r_simps False if_False, simp)
    have "sorted (map tag_name ((ys @ [y]) @ [x]))"
      using snoc.prems(2) False by (auto simp: sorted_append)
    then show ?thesis
      unfolding step by (intro exI [of _ "(ys @ [y]) @ [x]"]) simp
  qed
qed

lemma insertionSort_outer_tags:
  assumes "\<forall>pt\<in>set (xs @ rest). tag_at buf pt" "sorted (map tag_name xs)"
  shows "\<exists>pts'. insertionSort_outer 0 (length (xs @ rest)) buf (map fst (xs @ rest)) (length xs) = Ok (map fst pts') \<and>
               mset pts' = mset (xs @ rest) \<and> sorted (map tag_name pts')"
  using assms
proof (induction rest arbitrary: xs)
  case Nil
  show ?case
    using Nil.prems(2) by (subst insertionSort_outer.simps) (simp add: exI [of _ xs])
next
  case (Cons x rest)
  from insertionSort_inner_tags [OF Cons.prems] obtain xs' where
    xs': "insertionSort_inner 0 buf (map fst (xs @ x # rest)) (length xs) = Ok (map fst (xs' @ rest))"
      "mset xs' = mset (x # xs)" "sorted (map tag_name xs')"
    by blast
  from xs'(2) have len: "length xs' = Suc (length xs)"
    by (metis mset_eq_length length_Cons)
  from xs'(2) have set: "set xs' = insert x (set xs)"
    by (metis mset_eq_setD list.simps(15))
  have "\<forall>pt\<in>set (xs' @ rest). tag_at buf pt"
    using Cons.prems(1) by (auto simp: set)
  from Cons.IH [OF this xs'(3)] obtain pts' where
    pts': "insertionSort_outer 0 (length (xs' @ rest)) buf (map fst (xs' @ rest)) (length xs') = Ok (map fst pts')"
      "mset pts' = mset (xs' @ rest)" "sorted (map tag_name pts')"
    by blast
  have l2: "length (xs @ x # rest) = length (xs' @ rest)"
    by (simp add: len)
  have step: "insertionSort_outer 0 (length (xs @ x # rest)) buf (map fst (xs @ x # rest)) (length xs) =
                insertionSort_outer 0 (length (xs' @ rest)) buf (map fst (xs' @ rest)) (length xs')"
    by (subst insertionSort_outer.simps) (simp only: xs'(1) bind_r_simps l2 len, simp add: len)
  show ?case
    unfolding step using pts' xs'(2) by (intro exI [of _ pts']) simp
qed

lemma insertionSort_tags:
  assumes "\<forall>pt\<in>set pts. tag_at buf pt"
  shows "\<exists>pts'. insertionSort 0 (length pts) buf (map fst pts) = Ok (map fst pts') \<and>
               mset pts' = mset pts \<and> sorted (map tag_name pts')"
proof (cases pts)
  case Nil
  show ?thesis
    unfolding insertionSort_def Nil by (subst insertionSort_outer.simps) simp
next
  case (Cons x rest)
  have "\<forall>pt\<in>set ([x] @ rest). tag_at buf pt" "sorted (map tag_name [x])"
    using assms by (simp_all add: Cons)
  from insertionSort_outer_tags [OF this] show ?thesis
    by (simp add: insertionSort_def Cons)
qed

subsection \<open>The rebuilt key and the two passes\<close>

lemma copy_at_fits:
  "copy_at (done @ room) (length done) v =
     Ok (done @ take (min (length room) (length v)) v @ drop (min (length room) (length v)) room,
         min (length room) (length v))"
  by (simp add: copy_at_def Let_def)

lemma rebuildKey_tags:
  assumes "\<forall>pt\<in>set pts. tag_at buf pt" "length (tags_bytes (map snd pts)) \<le> length room"
  shows "rebuildKey buf (map fst pts) (done @ room) (length done) =
           Ok (done @ tags_bytes (map snd pts) @ drop (length (tags_bytes (map snd pts))) room)"
  using assms
proof (induction pts arbitrary: "done" room)
  case Nil
  then show ?case by simp
next
  case (Cons pt pts)
  obtain p t where pt: "pt = (p, t)" by (cases pt)
  from Cons.prems(1) have at: "tag_at buf (p, t)" by (simp add: pt)
  from Cons.prems(2) obtain r room' where room: "room = r # room'"
    by (cases room) (auto simp: pt tags_bytes_Cons)
  have len: "length (tag_bytes t) + length (tags_bytes (map snd pts)) \<le> length room'"
    using Cons.prems(2) by (simp add: pt tags_bytes_Cons room)
  let ?done' = "done @ CHR '','' # tag_bytes t"
  let ?room' = "drop (length (tag_bytes t)) room'"
  have upd: "(done @ room)[length done := CHR '',''] = (done @ '','') @ room'"
    by (simp add: room list_update_append)
  have copy: "copy_at ((done @ room)[length done := CHR '','']) (length done + 1) (tag_bytes t) =
                Ok (?done' @ ?room', length (tag_bytes t))"
    unfolding upd using copy_at_fits [of "done @ '',''" room' "tag_bytes t"] len
    by (simp add: min_def)
  have IH: "rebuildKey buf (map fst pts) (?done' @ ?room') (length ?done') =
              Ok (?done' @ tags_bytes (map snd pts) @ drop (length (tags_bytes (map snd pts))) ?room')"
    using Cons.prems(1) len by (intro Cons.IH) simp_all
  have pos: "length done + 1 + length (tag_bytes t) = length ?done'"
    by simp
  have full: "\<not> length done \<ge> length (done @ room)"
    by (simp add: room)
  have "rebuildKey buf (map fst (pt # pts)) (done @ room) (length done) =
          rebuildKey buf (map fst pts) (?done' @ ?room') (length ?done')"
    by (simp only: pt list.map fst_conv rebuildKey.simps full if_False tag_at_span(1) [OF at]
          bind_r_simps prod.case copy pos)
  also note IH
  finally show ?case
    by (simp add: pt tags_bytes_Cons add.commute room)
qed

text \<open>The second pass compares each tag with the next one.\<close>

lemma hasDuplicate_tags:
  assumes "\<forall>pt\<in>set (xs @ ys). tag_at buf pt"
  shows "hasDuplicate buf (map fst (xs @ ys)) (length (xs @ ys)) (length xs) =
           Ok (\<not> distinct_adj (map tag_name ys))"
  using assms
proof (induction ys arbitrary: xs rule: induct_list012)
  case 1
  show ?case by (subst hasDuplicate.simps) simp
next
  case (2 y)
  show ?case by (subst hasDuplicate.simps) simp
next
  case (3 y z ys)
  let ?pts = "xs @ y # z # ys"
  have y: "tag_at buf (fst y, snd y)" and z: "tag_at buf (fst z, snd z)"
    using "3.prems" by simp_all
  have ay: "at (map fst ?pts) (length xs) = Ok (fst y)"
    and az: "at (map fst ?pts) (length xs + 1) = Ok (fst z)"
    by (simp_all add: at_def nth_append)
  have IH: "hasDuplicate buf (map fst ((xs @ [y]) @ z # ys)) (length ((xs @ [y]) @ z # ys)) (length (xs @ [y])) =
              Ok (\<not> distinct_adj (map tag_name (z # ys)))"
    using "3.prems" by (intro "3.IH"(2)) simp
  have "hasDuplicate buf (map fst ?pts) (length ?pts) (length xs) =
          (if tag_name y = tag_name z then Ok True
           else hasDuplicate buf (map fst ?pts) (length ?pts) (length xs + 1))"
    by (subst hasDuplicate.simps)
      (simp only: ay az tag_at_suffix [OF y] tag_at_suffix [OF z] bind_r_simps prod.case, simp)
  with IH show ?case by simp
qed

text \<open>The first pass, on the names of the tags in the order of the input.\<close>

fun first_pass :: "string list \<Rightarrow> bool result" where
  "first_pass (a # b # r) =
     (if a > b then Ok False else if a = b then Err DuplicateTags else first_pass (b # r))"
| "first_pass [a] = Ok True"
| "first_pass [] = Ok True"

lemma first_pass_True: "first_pass xs = Ok True \<Longrightarrow> sorted_wrt (<) xs"
  by (induction xs rule: first_pass.induct) (auto split: if_splits)

lemma first_pass_Err: "first_pass xs = Err e \<Longrightarrow> e = DuplicateTags \<and> \<not> distinct xs"
  by (induction xs rule: first_pass.induct) (auto split: if_splits)

lemma first_pass_cases:
  "first_pass xs = Ok True \<or> first_pass xs = Ok False \<or> first_pass xs = Err DuplicateTags"
  by (induction xs rule: first_pass.induct) auto

lemma tagsSorted_tags:
  assumes "\<And>j. j < length ts \<Longrightarrow> tagSpan buf indices j = Ok (tag_bytes (ts ! j))"
    and "\<forall>t\<in>set ts. wf_tag t"
  shows "tagsSorted buf indices (length ts) j = first_pass (drop j (map fst ts))"
proof (induction "length ts - j" arbitrary: j)
  case 0
  then show ?case by (subst tagsSorted.simps) simp
next
  case (Suc d)
  show ?case
  proof (cases "j + 1 < length ts")
    case False
    with Suc.hyps(2) have j: "Suc j = length ts" by simp
    then have "drop j (map fst ts) = [fst (ts ! j)]"
      by (metis Cons_nth_drop_Suc drop_all drop_map length_map lessI nth_map order_refl)
    with False show ?thesis by (subst tagsSorted.simps) simp
  next
    case True
    then have j: "j < length ts" "j + 1 < length ts" by simp_all
    have wf: "wf_tag (ts ! j)" "wf_tag (ts ! (j + 1))"
      using assms(2) j by simp_all
    have drop: "drop j (map fst ts) = fst (ts ! j) # fst (ts ! (j + 1)) # drop (j + 2) (map fst ts)"
      using j by (simp add: Cons_nth_drop_Suc [symmetric])
    have IH: "tagsSorted buf indices (length ts) (j + 1) = first_pass (drop (j + 1) (map fst ts))"
      using Suc.hyps(2) by (intro Suc.hyps(1)) simp
    have d1: "drop (j + 1) (map fst ts) = fst (ts ! (j + 1)) # drop (j + 2) (map fst ts)"
      using j by (simp add: Cons_nth_drop_Suc [symmetric])
    have "tagsSorted buf indices (length ts) j =
            (if fst (ts ! j) > fst (ts ! (j + 1)) then Ok False
             else if fst (ts ! j) = fst (ts ! (j + 1)) then Err DuplicateTags
             else tagsSorted buf indices (length ts) (j + 1))"
      by (subst tagsSorted.simps)
        (simp only: assms(1) [OF j(1)] assms(1) [OF j(2)] tag_bytes_name [OF wf(1)]
           tag_bytes_name [OF wf(2)] bind_r_simps prod.case True if_True,
         auto simp: bytes_Compare_def)
    then show ?thesis
      unfolding IH drop d1 by simp
  qed
qed

subsection \<open>The result of \<open>scanKey\<close>\<close>

lemma sorted_distinct_adj:
  fixes xs :: "'a::linorder list"
  shows "sorted xs \<Longrightarrow> distinct_adj xs = distinct xs"
  by (induction xs rule: induct_list012) auto

lemma filter_distinct_key:
  "distinct (map f zs) \<Longrightarrow> k \<in> set zs \<Longrightarrow> filter (\<lambda>x. f k = f x) zs = [k]"
proof (induction zs)
  case Nil
  then show ?case by simp
next
  case (Cons z zs)
  show ?case
  proof (cases "k = z")
    case True
    have "filter (\<lambda>x. f z = f x) zs = []"
      using Cons.prems(1) by (auto simp: filter_empty_conv)
    with True show ?thesis by simp
  next
    case False
    with Cons.prems have "k \<in> set zs" "f k \<noteq> f z" by (auto simp: image_iff)
    with Cons show ?thesis by simp
  qed
qed

lemma sort_key_unique:
  fixes f :: "'a \<Rightarrow> 'k::linorder"
  assumes "mset ys = mset xs" "sorted (map f ys)" "distinct (map f xs)"
  shows "ys = sort_key f xs"
proof -
  have "mset (map f ys) = mset (map f xs)"
    using assms(1) by simp
  then have d: "distinct (map f ys)"
    using assms(3) by (metis mset_eq_imp_distinct_iff)
  have "set ys = set xs"
    using assms(1) by (rule mset_eq_setD)
  then have "\<And>k. k \<in> set ys \<Longrightarrow> filter (\<lambda>x. f k = f x) ys = filter (\<lambda>x. f k = f x) xs"
    using filter_distinct_key [OF d] filter_distinct_key [OF assms(3)] by simp
  from properties_for_sort_key [OF assms(1) this assms(2)] show ?thesis
    by simp
qed

lemma length_tags_bytes:
  "length (tags_bytes ts) = sum_list (map (\<lambda>t. Suc (length (tag_bytes t))) ts)"
  by (induction ts) (simp_all add: tags_bytes_Cons)

lemma length_tags_bytes_mset:
  assumes "mset xs = mset ys"
  shows "length (tags_bytes xs) = length (tags_bytes ys)"
proof -
  have "mset (map (\<lambda>t. Suc (length (tag_bytes t))) xs) = mset (map (\<lambda>t. Suc (length (tag_bytes t))) ys)"
    using assms by simp
  then show ?thesis
    unfolding length_tags_bytes by (metis sum_mset_sum_list)
qed

lemma skipWhitespace_measurement:
  assumes "wf_measurement m"
  shows "skipWhitespace (pre @ m @ rest) (length pre) = length pre"
proof -
  from assms obtain x xs where "m = x # xs" "x \<noteq> CHR '' ''" "x \<noteq> tab" "x \<noteq> nul"
    by (cases m) (auto simp: wf_measurement_def run_ok_def)
  then show ?thesis
    by (subst skipWhitespace.simps) simp
qed

lemma skipWhitespace_leading:
  assumes "list_all is_space ws" "wf_measurement m"
  shows "skipWhitespace (pre @ ws @ m @ rest) (length pre) = length pre + length ws"
  using assms(1)
proof (induction ws arbitrary: pre)
  case Nil
  show ?case using skipWhitespace_measurement [OF assms(2), of pre rest] by simp
next
  case (Cons c ws)
  have "skipWhitespace ((pre @ [c]) @ ws @ m @ rest) (length (pre @ [c])) = length (pre @ [c]) + length ws"
    using Cons.prems by (intro Cons.IH) simp
  moreover have "is_space c" using Cons.prems by simp
  ultimately show ?case
    by (subst skipWhitespace.simps) (auto simp: is_space_def)
qed

text \<open>
  \<open>scanKey\<close> on a key with tags: behind blanks a measurement, then the tags, each behind a
  comma, then a space.
\<close>

lemma scanKey_tags:
  assumes ws: "list_all is_space ws" and m: "wf_measurement m"
    and wf: "\<forall>t\<in>set ts. wf_tag t" and ne: "ts \<noteq> []"
  shows "scanKey (ws @ m @ tags_bytes ts @ CHR '' '' # rest) 0 =
     (if capacity 100 0 (length ts) \<le> length ts then Err Panic
      else if \<not> distinct (map fst ts) then Err DuplicateTags
      else Ok (length ws + length m + length (tags_bytes ts), m @ tags_bytes (sort_key fst ts)))"
proof -
  define buf where "buf = ws @ m @ tags_bytes ts @ CHR '' '' # rest"
  define q where "q = length ws + length m"
  define n where "n = length ts"
  define e where "e = q + length (tags_bytes ts)"
  define starts where "starts = tag_starts q ts"
  define idx' where "idx' = record_indices (replicate 100 0) 0 starts"
  define fi where "fi = idx'[n := e + 1]"
  from ne obtain t ts' where ts: "ts = t # ts'" by (cases ts) auto
  have buf2: "buf = (ws @ m) @ tags_bytes ts @ CHR '' '' # rest"
    by (simp add: buf_def)
  have skip: "skipWhitespace buf 0 = length ws"
    using skipWhitespace_leading [OF ws m, of "[]" "tags_bytes ts @ CHR '' '' # rest"]
    by (simp add: buf_def)
  have meas: "scanMeasurement buf (length ws) = Ok (tagKeyState, Suc q)"
    using scanMeasurement_run [OF m, of "CHR '',''" ws "tag_bytes t @ tags_bytes ts' @ CHR '' '' # rest"]
    by (simp add: buf_def ts tags_bytes_Cons q_def)
  have len: "length idx' = capacity 100 0 n"
    by (simp add: idx'_def length_record_indices starts_def n_def)
  have tags: "scanTags buf (Suc q) (replicate 100 0) =
                (if n \<ge> length idx' then Err Panic else Ok (e, n, fi))"
    using scanTags_loop_tags [of t ts' "replicate 100 0" 0 "ws @ m" rest] wf
    by (simp add: scanTags_def buf2 ts Let_def idx'_def starts_def q_def e_def n_def fi_def
          del: tag_starts.simps record_indices.simps)
  show ?thesis
  proof (cases "capacity 100 0 n \<le> n")
    case True
    have tagsP: "scanTags buf (Suc q) (replicate 100 0) = Err Panic"
      using True by (simp add: tags len)
    have "scanKey buf 0 = Err Panic"
      unfolding scanKey_def Let_def skip
      by (simp only: meas bind_r_simps prod.case simp_thms if_True tagsP)
    with True show ?thesis by (simp add: buf_def n_def)
  next
    case False
    then have room: "n < length idx'" by (simp add: len)
    have tags': "scanTags buf (Suc q) (replicate 100 0) = Ok (e, n, fi)"
      using room by (simp add: tags)
    have lfi: "length fi = length idx'" by (simp add: fi_def)
    have tk: "take n idx' = starts"
      using take_record_indices [of "replicate 100 0" 0 starts]
      by (simp add: idx'_def starts_def n_def)
    have ls: "length starts = n" by (simp add: starts_def n_def)
    have nth: "fi ! j = starts ! j" if "j < n" for j
    proof -
      have "fi ! j = idx' ! j" using that by (simp add: fi_def)
      also have "\<dots> = take n idx' ! j" using that by simp
      finally show ?thesis by (simp add: tk)
    qed
    have last: "fi ! n = e + 1" using room by (simp add: fi_def)
    have nxt: "fi ! Suc j = (starts @ [Suc e]) ! Suc j" if "j < n" for j
    proof (cases "Suc j < n")
      case True
      then show ?thesis using nth [of "Suc j"] by (simp add: nth_append ls)
    next
      case False
      with that have "Suc j = n" by simp
      then show ?thesis using last by (simp add: nth_append ls)
    qed
    have layout: "\<forall>pt\<in>set (zip starts ts). tag_at buf pt"
      unfolding buf2 starts_def q_def using tags_layout [OF wf, of "ws @ m" rest] by simp
    have at_j: "tag_at buf (starts ! j, ts ! j)" if "j < n" for j
    proof -
      have "zip starts ts ! j \<in> set (zip starts ts)"
        using that by (intro nth_mem) (simp add: ls n_def)
      with layout show ?thesis using that by (simp add: ls n_def)
    qed
    have span: "tagSpan buf fi j = Ok (tag_bytes (ts ! j))" if "j < length ts" for j
    proof -
      from that have j: "j < n" by (simp add: n_def)
      have "fi ! Suc j = Suc (starts ! j + length (tag_bytes (ts ! j)))"
        using nxt [OF j] tag_starts_next [OF that, of q] by (simp add: starts_def e_def)
      moreover have "Suc j < length fi" "j < length fi"
        using j room by (simp_all add: lfi)
      ultimately show ?thesis
        using tag_at_span(2) [OF at_j [OF j]] nth [OF j] by (simp add: tagSpan_def at_def)
    qed
    have sorted: "tagsSorted buf fi n 0 = first_pass (map fst ts)"
      using tagsSorted_tags [of ts buf fi 0] span wf by (simp add: n_def)
    have npos: "0 < n" using ne by (simp add: n_def)
    have whole: "slice buf (length ws) e = Ok (m @ tags_bytes ts)"
      by (simp add: slice_def buf_def e_def q_def)
    consider (T) "first_pass (map fst ts) = Ok True" | (F) "first_pass (map fst ts) = Ok False"
      | (D) "first_pass (map fst ts) = Err DuplicateTags"
      using first_pass_cases by blast
    then have "scanKey buf 0 =
                 (if \<not> distinct (map fst ts) then Err DuplicateTags
                  else Ok (e, m @ tags_bytes (sort_key fst ts)))"
    proof cases
      case T
      have s: "sorted_wrt (<) (map fst ts)" using T by (rule first_pass_True)
      then have d: "distinct (map fst ts)" and s': "sorted (map fst ts)"
        using strict_sorted_iff by blast+
      have "ts = sort_key fst ts"
        using s' d by (intro sort_key_unique) simp_all
      moreover have "scanKey buf 0 = Ok (e, m @ tags_bytes ts)"
        unfolding scanKey_def Let_def skip
        by (simp only: meas bind_r_simps prod.case simp_thms if_True tags' sorted T not_True_eq_False
              simp_thms if_False whole)
      ultimately show ?thesis using d by simp
    next
      case D
      have "\<not> distinct (map fst ts)" using first_pass_Err [OF D] by simp
      moreover have "scanKey buf 0 = Err DuplicateTags"
        unfolding scanKey_def Let_def skip
        by (simp only: meas bind_r_simps prod.case simp_thms if_True tags' sorted D)
      ultimately show ?thesis by simp
    next
      case F
      define pts where "pts = zip starts ts"
      have fpts: "map fst pts = starts" and spts: "map snd pts = ts" and lpts: "length pts = n"
        by (simp_all add: pts_def ls n_def)
      have "0 < length fi" unfolding lfi using room by (rule less_trans [OF npos])
      then have first: "at fi 0 = Ok (Suc q)"
        using nth [OF npos] tag_starts_first [OF ne, of q]
        by (simp add: at_def starts_def)
      have q0: "Suc q \<noteq> 0" by simp
      have msl: "slice buf (length ws) (Suc q - 1) = Ok m"
        by (simp add: slice_def buf_def q_def)
      have isl: "slice fi 0 n = Ok (map fst pts)"
        using room tk by (simp add: slice_def lfi fi_def fpts)
      have atp: "\<forall>pt\<in>set pts. tag_at buf pt"
        unfolding pts_def by (rule layout)
      from insertionSort_tags [OF atp] obtain pts' where
        sort: "insertionSort 0 n buf (map fst pts) = Ok (map fst pts')"
        and ms: "mset pts' = mset pts" and srt: "sorted (map tag_name pts')"
        unfolding lpts by blast
      have set': "set pts' = set pts" using ms by (rule mset_eq_setD)
      have lpts': "length pts' = n" using ms lpts by (metis mset_eq_length)
      have "mset (map snd pts') = mset (map snd pts)"
        unfolding mset_map ms ..
      then have ms2: "mset (map snd pts') = mset ts"
        unfolding spts .
      have at': "\<forall>pt\<in>set pts'. tag_at buf pt"
        unfolding set' by (rule atp)
      have copy: "copy_at (replicate (length (m @ tags_bytes ts)) nul) 0 m =
                    Ok (m @ replicate (length (tags_bytes ts)) nul, length m)"
        using copy_at_fits [of "[]" "replicate (length (m @ tags_bytes ts)) nul" m]
        by (simp add: min_def)
      have l2: "length (tags_bytes (map snd pts')) = length (tags_bytes ts)"
        using ms2 by (rule length_tags_bytes_mset)
      have rebuild: "rebuildKey buf (map fst pts') (m @ replicate (length (tags_bytes ts)) nul) (length m) =
                       Ok (m @ tags_bytes (map snd pts'))"
        using rebuildKey_tags [OF at', of "replicate (length (tags_bytes ts)) nul" m]
        by (simp add: l2)
      have "mset (map tag_name pts') = mset (map fst ts)"
        using arg_cong [OF ms2, of "image_mset fst"] by (simp add: multiset.map_comp comp_def)
      then have dd: "distinct (map tag_name pts') = distinct (map fst ts)"
        by (rule mset_eq_imp_distinct_iff)
      have dup: "hasDuplicate buf (map fst pts') n 0 = Ok (\<not> distinct (map fst ts))"
        using hasDuplicate_tags [of "[]" pts' buf] at' sorted_distinct_adj [OF srt]
        by (simp add: lpts' dd)
      have run: "scanKey buf 0 =
                   (if \<not> distinct (map fst ts) then Err DuplicateTags
                    else Ok (e, m @ tags_bytes (map snd pts')))"
        unfolding scanKey_def Let_def skip
        by (simp only: meas bind_r_simps prod.case simp_thms if_True tags' sorted F not_False_eq_True
              npos simp_thms first q0 if_False msl isl sort whole copy rebuild dup)
      have "map snd pts' = sort_key fst ts" if "distinct (map fst ts)"
        using ms2 srt that by (intro sort_key_unique) (simp_all add: comp_def)
      with run show ?thesis by simp
    qed
    with False show ?thesis
      by (simp add: buf_def n_def e_def q_def)
  qed
qed


text \<open>The slice of indices is full exactly at 100 tags and at every doubling of 100.\<close>

lemma capacity_full:
  assumes "0 < L" "c \<le> L"
  shows "capacity L c n \<le> c + n \<longleftrightarrow> (\<exists>k. c + n = L * 2 ^ k)"
  using assms
proof (induction n arbitrary: L c)
  case 0
  show ?case
  proof
    assume "capacity L c 0 \<le> c + 0"
    with "0.prems" have "c + 0 = L * 2 ^ 0" by simp
    then show "\<exists>k. c + 0 = L * 2 ^ k" ..
  next
    assume "\<exists>k. c + 0 = L * 2 ^ k"
    then obtain k where "c = L * 2 ^ k" by auto
    moreover have "L * 1 \<le> L * 2 ^ k" by (intro mult_le_mono2) simp
    ultimately show "capacity L c 0 \<le> c + 0" by simp
  qed
next
  case (Suc n)
  let ?L' = "if c \<ge> L then 2 * L else L"
  have inv: "0 < ?L'" "Suc c \<le> ?L'" using Suc.prems by auto
  have IH: "capacity ?L' (Suc c) n \<le> Suc c + n \<longleftrightarrow> (\<exists>k. Suc c + n = ?L' * 2 ^ k)"
    using inv by (rule Suc.IH)
  have "(\<exists>k. Suc c + n = ?L' * 2 ^ k) \<longleftrightarrow> (\<exists>k. Suc c + n = L * 2 ^ k)"
  proof (cases "c \<ge> L")
    case False
    then show ?thesis by simp
  next
    case True
    with Suc.prems have c: "c = L" by simp
    show ?thesis
    proof
      assume "\<exists>k. Suc c + n = ?L' * 2 ^ k"
      then obtain k where "Suc c + n = ?L' * 2 ^ k" ..
      then have "Suc c + n = L * 2 ^ Suc k" using True by simp
      then show "\<exists>k. Suc c + n = L * 2 ^ k" ..
    next
      assume "\<exists>k. Suc c + n = L * 2 ^ k"
      then obtain k where k: "Suc c + n = L * 2 ^ k" ..
      have "k \<noteq> 0" using k c by (cases k) auto
      then obtain j where "k = Suc j" by (cases k) auto
      with k have "Suc c + n = ?L' * 2 ^ j" using True by simp
      then show "\<exists>k. Suc c + n = ?L' * 2 ^ k" ..
    qed
  qed
  with IH show ?case by simp
qed

lemma indices_not_full: "n < 100 \<Longrightarrow> \<not> (\<exists>k. n = 100 * 2 ^ k)" for n :: nat
proof
  assume "n < 100" "\<exists>k. n = 100 * 2 ^ k"
  then obtain k where "n = 100 * 2 ^ k" by blast
  moreover have "(100::nat) * 1 \<le> 100 * 2 ^ k" by (intro mult_le_mono2) simp
  ultimately show False using \<open>n < 100\<close> by simp
qed

text \<open>A key without tags is returned as it is.\<close>

lemma scanKey_no_tags:
  assumes "list_all is_space ws" "wf_measurement m"
  shows "scanKey (ws @ m @ CHR '' '' # rest) 0 = Ok (length ws + length m, m)"
proof -
  let ?buf = "ws @ m @ CHR '' '' # rest"
  have skip: "skipWhitespace ?buf 0 = length ws"
    using skipWhitespace_leading [OF assms, of "[]" "CHR '' '' # rest"] by simp
  have meas: "scanMeasurement ?buf (length ws) = Ok (fieldsState, length ws + length m)"
    using scanMeasurement_run [OF assms(2), of "CHR '' ''" ws rest] by simp
  have sorted: "tagsSorted ?buf (replicate 100 0) 0 0 = Ok True"
    by (subst tagsSorted.simps) simp
  have slice: "slice ?buf (length ws) (length ws + length m) = Ok m"
    by (simp add: slice_def)
  show ?thesis
    unfolding scanKey_def Let_def skip
    by (simp only: meas bind_r_simps prod.case scan_state.distinct if_False sorted slice, simp)
qed

text \<open>
  \<open>scanKey\<close> on every key of the grammar: blanks, a measurement, tags behind commas, a
  space.
\<close>

lemma scanKey_eq:
  assumes "list_all is_space ws" "wf_measurement m" "\<forall>t\<in>set ts. wf_tag t"
  shows "scanKey (ws @ m @ tags_bytes ts @ CHR '' '' # rest) 0 =
     (if \<exists>k. length ts = 100 * 2 ^ k then Err Panic
      else if \<not> distinct (map fst ts) then Err DuplicateTags
      else Ok (length ws + length m + length (tags_bytes ts), m @ tags_bytes (sort_key fst ts)))"
proof (cases "ts = []")
  case True
  have "\<not> (\<exists>k. (0::nat) = 100 * 2 ^ k)" by simp
  then show ?thesis
    using scanKey_no_tags [OF assms(1,2), of rest] by (simp add: True)
next
  case False
  have "capacity 100 0 (length ts) \<le> length ts \<longleftrightarrow> (\<exists>k. length ts = 100 * 2 ^ k)"
    using capacity_full [of 100 0 "length ts"] by simp
  then show ?thesis
    using scanKey_tags [OF assms False, of rest] by simp
qed

lemma free_of_disjoint: "set xs \<inter> S = {} \<Longrightarrow> free_of S prev xs"
  by (induction xs arbitrary: prev) auto

text \<open>A tag of one repeated letter and the value \<open>v\<close>.\<close>

lemma wf_tag_letters:
  assumes "c \<notin> {CHR '' '', CHR '','', CHR ''='', bslash}"
  shows "wf_tag (c # replicate i c, ''v'')"
proof -
  have "set (replicate i c) \<inter> {CHR '' '', CHR '','', CHR ''=''} = {}"
    using assms by auto
  then have "free_of {CHR '' '', CHR '','', CHR ''=''} c (replicate i c)"
    by (rule free_of_disjoint)
  moreover have "last (c # replicate i c) \<noteq> bslash"
    using assms by (cases i) auto
  ultimately show ?thesis
    using assms by (simp add: wf_tag_def wf_tag_key_def wf_tag_value_def run_ok_def)
qed

subsection \<open>Order of the tags, duplicate names, the number of tags\<close>



text \<open>
  C2 fails on the code at 100 tags and at every doubling of 100: a key of the grammar with
  two tags of the same name is rejected with the duplicate-tags error, whether the two are
  adjacent or not and whether the tags are sorted or not, unless the number of tags is
  100 or a doubling of 100; then \<open>scanKey\<close> panics.  It never returns a key.
\<close>

theorem scanKey_duplicate_tags:
  assumes "list_all is_space ws" "wf_measurement m" "\<forall>t\<in>set ts. wf_tag t"
    and "\<not> distinct (map fst ts)"
  shows "scanKey (ws @ m @ tags_bytes ts @ CHR '' '' # rest) 0 =
           (if \<exists>k. length ts = 100 * 2 ^ k then Err Panic else Err DuplicateTags)"
  unfolding scanKey_eq [OF assms(1,2,3)] using assms(4) by simp

text \<open>
  Three tags, the first and the last named \<open>a\<close>: the duplicate-tags error.  A hundred
  tags, the first and the last named \<open>a\<close>: a panic.
\<close>

theorem scanKey_duplicate_tags_witness:
  "scanKey ''cpu,a=1,b=2,a=3 value=1 1'' 0 = Err DuplicateTags
   \<and> scanKey (''cpu'' @ tags_bytes ((''a'', ''v'') # map (\<lambda>i. (replicate (Suc i) CHR ''b'', ''v'')) [0..<98]
                                      @ [(''a'', ''v'')]) @ '' value=1 1'') 0 = Err Panic"
proof -
  let ?small = "[(''a'', ''1''), (''b'', ''2''), (''a'', ''3'')]"
  let ?big = "(''a'', ''v'') # map (\<lambda>i. (replicate (Suc i) CHR ''b'', ''v'')) [0..<98] @ [(''a'', ''v'')]"
  have m: "wf_measurement ''cpu''"
    by (simp add: wf_measurement_def run_ok_def)
  have wfs: "\<forall>t\<in>set ?small. wf_tag t"
    by (simp add: wf_tag_def wf_tag_key_def wf_tag_value_def run_ok_def)
  have ds: "\<not> distinct (map fst ?small)" by simp
  have ns: "\<nexists>k. length ?small = 100 * 2 ^ k"
    by (rule indices_not_full) simp
  have a: "wf_tag (''a'', ''v'')"
    by (simp add: wf_tag_def wf_tag_key_def wf_tag_value_def run_ok_def)
  have wfb: "\<forall>t\<in>set ?big. wf_tag t"
    using a by (auto simp: wf_tag_letters)
  have db: "\<not> distinct (map fst ?big)" by simp
  have "length ?big = 100 * 2 ^ 0" by simp
  then have nb: "\<exists>k. length ?big = 100 * 2 ^ k" ..
  have sp: "list_all is_space []" by simp
  have small: "scanKey (''cpu'' @ tags_bytes ?small @ '' value=1 1'') 0 = Err DuplicateTags"
    using scanKey_duplicate_tags [OF sp m wfs ds, of "''value=1 1''"] ns
    unfolding append_Nil by simp
  have big: "scanKey (''cpu'' @ tags_bytes ?big @ '' value=1 1'') 0 = Err Panic"
    using scanKey_duplicate_tags [OF sp m wfb db, of "''value=1 1''"] nb
    unfolding append_Nil by (simp only: if_True)
  have "''cpu'' @ tags_bytes ?small @ '' value=1 1'' = ''cpu,a=1,b=2,a=3 value=1 1''"
    by (simp add: tags_bytes_def tag_bytes_def)
  with small big show ?thesis
    by (simp only: simp_thms)
qed

text \<open>
  C9 fails on the code: the state \<open>tagKeyState\<close> of \<open>scanTags\<close> doubles the slice of
  indices when it is full, the state \<open>fieldsState\<close> stores the end of the tags at
  \<open>indices[commas]\<close> without that test.  On a key of the grammar \<open>scanKey\<close> panics exactly
  when the number of its tags is 100 or a doubling of 100.
\<close>

theorem scanKey_panics_when_indices_full:
  assumes "list_all is_space ws" "wf_measurement m" "\<forall>t\<in>set ts. wf_tag t"
  shows "scanKey (ws @ m @ tags_bytes ts @ CHR '' '' # rest) 0 = Err Panic \<longleftrightarrow>
           (\<exists>k. length ts = 100 * 2 ^ k)"
  unfolding scanKey_eq [OF assms] by simp

text \<open>
  A hundred tags, the tag \<open>i\<close> named by \<open>i\<close> letters \<open>a\<close>: a panic.  The first 99 of them:
  no panic.
\<close>

theorem scanKey_panics_when_indices_full_witness:
  "scanKey (''m'' @ tags_bytes (map (\<lambda>i. (replicate (Suc i) CHR ''a'', ''v'')) [0..<100]) @ '' f=1 1'') 0
     = Err Panic
   \<and> scanKey (''m'' @ tags_bytes (map (\<lambda>i. (replicate (Suc i) CHR ''a'', ''v'')) [0..<99]) @ '' f=1 1'') 0
     \<noteq> Err Panic"
proof -
  let ?ts = "\<lambda>n. map (\<lambda>i. (replicate (Suc i) CHR ''a'', ''v'')) [0..<n]"
  have m: "wf_measurement ''m''"
    by (simp add: wf_measurement_def run_ok_def)
  have wf: "\<forall>t\<in>set (?ts n). wf_tag t" for n
    by (auto intro: wf_tag_letters)
  have "length (?ts 100) = 100 * 2 ^ 0" by simp
  then have full: "\<exists>k. length (?ts 100) = 100 * 2 ^ k" ..
  have room: "\<nexists>k. length (?ts 99) = 100 * 2 ^ k"
    by (rule indices_not_full) simp
  have sp: "list_all is_space []" by simp
  have a: "scanKey (''m'' @ tags_bytes (?ts 100) @ '' f=1 1'') 0 = Err Panic"
    using scanKey_panics_when_indices_full [OF sp m wf, of 100 "''f=1 1''"] full
    unfolding append_Nil by (simp only: simp_thms)
  have b: "scanKey (''m'' @ tags_bytes (?ts 99) @ '' f=1 1'') 0 \<noteq> Err Panic"
    using scanKey_panics_when_indices_full [OF sp m wf, of 99 "''f=1 1''"] room
    unfolding append_Nil by (simp only: simp_thms)
  from a b show ?thesis by (simp only: simp_thms)
qed

end
